theory Spec2Isabelle
  imports Main "HOL-Library.Word" "HOL-Library.Log_Nat"
begin

unbundle bit_operations_syntax

section \<open>JavaScript values used by the parser\<close>

text \<open>
  A byte of a \<open>Uint8Array\<close> is an 8-bit word. A \<open>BigInt\<close> is an \<open>int\<close>. A \<open>Number\<close>
  that was produced from an integer is an IEEE double whose value is an integer, an
  infinity or NaN: \<open>Fin v\<close> is the double with the integer value \<open>v\<close>.
\<close>

type_synonym byte = "8 word"

datatype jsnum = Fin int | PInf | NInf | NaN

text \<open>
  \<open>Number(v)\<close> for a BigInt \<open>v\<close>: the nearest double, ties to even. Integers of magnitude at
  most \<open>2^53\<close> are doubles; a larger one keeps its 53 leading bits, and a result of
  magnitude \<open>2^1024\<close> is an infinity.
\<close>

definition roundMagnitude :: "int \<Rightarrow> int" where
  "roundMagnitude a =
     (let e = nat (bitlen a) - 53;
          q = a div 2 ^ e;
          r = a mod 2 ^ e;
          h = 2 ^ (e - 1)
      in (if h < r \<or> (r = h \<and> odd q) then q + 1 else q) * 2 ^ e)"

definition roundDouble :: "int \<Rightarrow> jsnum" where
  "roundDouble v =
     (if \<bar>v\<bar> \<le> 2 ^ 53 then Fin v
      else if 2 ^ 1024 \<le> roundMagnitude \<bar>v\<bar> then (if v < 0 then NInf else PInf)
      else Fin (if v < 0 then - roundMagnitude \<bar>v\<bar> else roundMagnitude \<bar>v\<bar>))"

definition Number :: "int \<Rightarrow> jsnum" where
  "Number v = roundDouble v"

text \<open>The operator \<open>+\<close> on two Numbers: the exact sum, rounded.\<close>

fun jsAdd :: "jsnum \<Rightarrow> jsnum \<Rightarrow> jsnum" where
  "jsAdd (Fin a) (Fin b) = roundDouble (a + b)"
| "jsAdd NaN _ = NaN"
| "jsAdd _ NaN = NaN"
| "jsAdd PInf NInf = NaN"
| "jsAdd NInf PInf = NaN"
| "jsAdd PInf _ = PInf"
| "jsAdd _ PInf = PInf"
| "jsAdd NInf _ = NInf"
| "jsAdd _ NInf = NInf"

text \<open>
  The operators \<open>+\<close> and \<open>-\<close> on two Numbers of the parser, which hold integers: the exact
  result, rounded to the nearest double. The integers of the metadata are thrift integers
  of at most 64 bits and the gap is small, so no result is near \<open>2^1024\<close>, where it would
  be an infinity.
\<close>

definition nearestNumber :: "int \<Rightarrow> int" where
  "nearestNumber v =
     (if \<bar>v\<bar> \<le> 2 ^ 53 then v
      else if v < 0 then - roundMagnitude \<bar>v\<bar> else roundMagnitude \<bar>v\<bar>)"

definition numAdd :: "int \<Rightarrow> int \<Rightarrow> int" where
  "numAdd a b = nearestNumber (a + b)"

definition numSub :: "int \<Rightarrow> int \<Rightarrow> int" where
  "numSub a b = nearestNumber (a - b)"

text \<open>The operator \<open><\<close> on two Numbers: false as soon as one of them is NaN.\<close>

fun jsLt :: "jsnum \<Rightarrow> jsnum \<Rightarrow> bool" where
  "jsLt (Fin a) (Fin b) = (a < b)"
| "jsLt NaN _ = False"
| "jsLt _ NaN = False"
| "jsLt NInf NInf = False"
| "jsLt NInf _ = True"
| "jsLt _ NInf = False"
| "jsLt PInf _ = False"
| "jsLt _ PInf = True"

text \<open>
  \<open>slice(start, end)\<close> of an Array, a typed array, a Blob and a String: a negative index
  counts from the end, every index is clamped to the length, and an empty range is empty.
\<close>

definition relIndex :: "nat \<Rightarrow> int \<Rightarrow> nat" where
  "relIndex n i = (if i < 0 then nat (max (int n + i) 0) else min (nat i) n)"

definition jsSlice :: "'a list \<Rightarrow> int \<Rightarrow> int \<Rightarrow> 'a list" where
  "jsSlice xs s e = take (relIndex (length xs) e - relIndex (length xs) s) (drop (relIndex (length xs) s) xs)"

text \<open>\<open>slice(start)\<close>: to the end.\<close>

definition jsSliceFrom :: "'a list \<Rightarrow> int \<Rightarrow> 'a list" where
  "jsSliceFrom xs s = drop (relIndex (length xs) s) xs"

text \<open>An index given as a Number: NaN is 0, the infinities clamp.\<close>

fun toIntegerOrInfinity :: "nat \<Rightarrow> jsnum \<Rightarrow> int" where
  "toIntegerOrInfinity n (Fin v) = v"
| "toIntegerOrInfinity n NaN = 0"
| "toIntegerOrInfinity n PInf = int n"
| "toIntegerOrInfinity n NInf = - int n"

section \<open>thrift.js: the compact protocol reader\<close>

text \<open>Every \<open>throw new Error(...)\<close> of the sources is a constructor, named after its message.\<close>

datatype error =
    BufferUnderflow
  | BufferUnderflowVarint
  | NegativeBinaryLength
  | BufferUnderflowBinary
  | RangeError
  | FileTooSmall
  | MissingHeaderMagic
  | MissingFooterMagic
  | InvalidFooterLength nat
  | ReadFailed int int

text \<open>\<open>Thrift.Type\<close> and \<open>COMPACT_TYPES\<close>: the type tags are small numbers.\<close>

definition Type_STOP :: nat where "Type_STOP = 0"
definition Type_BOOL :: nat where "Type_BOOL = 2"
definition Type_BYTE :: nat where "Type_BYTE = 3"
definition Type_I16 :: nat where "Type_I16 = 4"
definition Type_I32 :: nat where "Type_I32 = 5"
definition Type_I64 :: nat where "Type_I64 = 6"
definition Type_DOUBLE :: nat where "Type_DOUBLE = 7"
definition Type_STRING :: nat where "Type_STRING = 8"
definition Type_LIST :: nat where "Type_LIST = 9"
definition Type_SET :: nat where "Type_SET = 10"
definition Type_MAP :: nat where "Type_MAP = 11"
definition Type_STRUCT :: nat where "Type_STRUCT = 12"

definition COMPACT_STOP :: nat where "COMPACT_STOP = 0"
definition COMPACT_BOOL_TRUE :: nat where "COMPACT_BOOL_TRUE = 1"
definition COMPACT_BOOL_FALSE :: nat where "COMPACT_BOOL_FALSE = 2"
definition COMPACT_BYTE :: nat where "COMPACT_BYTE = 3"
definition COMPACT_I16 :: nat where "COMPACT_I16 = 4"
definition COMPACT_I32 :: nat where "COMPACT_I32 = 5"
definition COMPACT_I64 :: nat where "COMPACT_I64 = 6"
definition COMPACT_DOUBLE :: nat where "COMPACT_DOUBLE = 7"
definition COMPACT_BINARY :: nat where "COMPACT_BINARY = 8"
definition COMPACT_LIST :: nat where "COMPACT_LIST = 9"
definition COMPACT_SET :: nat where "COMPACT_SET = 10"
definition COMPACT_MAP :: nat where "COMPACT_MAP = 11"
definition COMPACT_STRUCT :: nat where "COMPACT_STRUCT = 12"

definition compactTypeToThriftType :: "nat \<Rightarrow> nat" where
  "compactTypeToThriftType compactType =
     (if compactType = COMPACT_STOP then Type_STOP
      else if compactType = COMPACT_BOOL_TRUE then Type_BOOL
      else if compactType = COMPACT_BOOL_FALSE then Type_BOOL
      else if compactType = COMPACT_BYTE then Type_BYTE
      else if compactType = COMPACT_I16 then Type_I16
      else if compactType = COMPACT_I32 then Type_I32
      else if compactType = COMPACT_I64 then Type_I64
      else if compactType = COMPACT_DOUBLE then Type_DOUBLE
      else if compactType = COMPACT_BINARY then Type_STRING
      else if compactType = COMPACT_LIST then Type_LIST
      else if compactType = COMPACT_SET then Type_SET
      else if compactType = COMPACT_MAP then Type_MAP
      else if compactType = COMPACT_STRUCT then Type_STRUCT
      else compactType)"

text \<open>
  The reader: the buffer, the cursor, the stack \<open>lastFieldId\<close> (its top is its last
  element) and the pending boolean. \<open>lastFieldIdM1\<close> is the property \<open>-1\<close> of the array
  \<open>lastFieldId\<close>: JavaScript reads and writes it when the stack is empty, where
  \<open>lastFieldId.length - 1\<close> is \<open>-1\<close>.
\<close>

record reader =
  buffer :: "byte list"
  offset :: nat
  lastFieldId :: "jsnum list"
  lastFieldIdM1 :: "jsnum option"
  boolValue :: "bool option"

definition newReader :: "byte list \<Rightarrow> reader" where
  "newReader bs = \<lparr>buffer = bs, offset = 0, lastFieldId = [Fin 0], lastFieldIdM1 = None, boolValue = None\<rparr>"

definition readByte :: "reader \<Rightarrow> error + (byte \<times> reader)" where
  "readByte r =
     (if length (buffer r) \<le> offset r then Inl BufferUnderflow
      else Inr (buffer r ! offset r, r\<lparr>offset := offset r + 1\<rparr>))"

text \<open>The do-while loop of \<open>readVarint\<close>, with its two variables \<open>result\<close> and \<open>shift\<close>.\<close>

function readVarint_loop :: "reader \<Rightarrow> int \<Rightarrow> nat \<Rightarrow> error + (int \<times> reader)" where
  "readVarint_loop r result shift =
     (if length (buffer r) \<le> offset r then Inl BufferUnderflowVarint
      else if (buffer r ! offset r) AND 0x80 \<noteq> 0
        then readVarint_loop (r\<lparr>offset := offset r + 1\<rparr>)
               (result OR push_bit shift (uint ((buffer r ! offset r) AND 0x7f))) (shift + 7)
        else Inr (result OR push_bit shift (uint ((buffer r ! offset r) AND 0x7f)),
                  r\<lparr>offset := offset r + 1\<rparr>))"
  by pat_completeness auto
termination
  by (relation "measure (\<lambda>(r, result, shift). length (buffer r) - offset r)") auto

declare readVarint_loop.simps [simp del]

definition readVarint :: "reader \<Rightarrow> error + (int \<times> reader)" where
  "readVarint r = readVarint_loop r 0 0"

text \<open>\<open>(n >> 1n) ^ (-(n & 1n))\<close> on BigInts.\<close>

definition zigzag :: "int \<Rightarrow> int" where
  "zigzag n = drop_bit 1 n XOR (- (n AND 1))"

definition readZigZag :: "reader \<Rightarrow> error + (int \<times> reader)" where
  "readZigZag r =
     (case readVarint r of
        Inl e \<Rightarrow> Inl e
      | Inr (n, r') \<Rightarrow> Inr (zigzag n, r'))"

definition readI16 :: "reader \<Rightarrow> error + (jsnum \<times> reader)" where
  "readI16 r =
     (case readZigZag r of
        Inl e \<Rightarrow> Inl e
      | Inr (val, r') \<Rightarrow> Inr (Number val, r'))"

definition readI32 :: "reader \<Rightarrow> error + (jsnum \<times> reader)" where
  "readI32 r =
     (case readZigZag r of
        Inl e \<Rightarrow> Inl e
      | Inr (val, r') \<Rightarrow> Inr (Number val, r'))"

text \<open>\<open>readI64\<close> returns a Number when the value is a safe integer, the BigInt otherwise.\<close>

datatype jsint = JSNumber jsnum | JSBigInt int

definition MAX_SAFE_INTEGER :: int where "MAX_SAFE_INTEGER = 2 ^ 53 - 1"
definition MIN_SAFE_INTEGER :: int where "MIN_SAFE_INTEGER = - (2 ^ 53 - 1)"

definition readI64 :: "reader \<Rightarrow> error + (jsint \<times> reader)" where
  "readI64 r =
     (case readZigZag r of
        Inl e \<Rightarrow> Inl e
      | Inr (val, r') \<Rightarrow>
          if MIN_SAFE_INTEGER \<le> val \<and> val \<le> MAX_SAFE_INTEGER then Inr (JSNumber (Number val), r')
          else Inr (JSBigInt val, r'))"

text \<open>
  \<open>readBinary\<close>. The cursor of the record is a natural number: when the two checks have
  passed, \<open>offset + length\<close> is a finite number between the cursor and the buffer's length
  on a buffer shorter than \<open>2^53\<close> bytes, as every typed array is (lemma \<open>readBinary_eq\<close>
  below), and \<open>offsetOf\<close> is applied to nothing else.
\<close>

fun offsetOf :: "jsnum \<Rightarrow> nat" where
  "offsetOf (Fin v) = nat v"
| "offsetOf _ = 0"

definition readBinary :: "reader \<Rightarrow> error + (byte list \<times> reader)" where
  "readBinary r =
     (case readVarint r of
        Inl e \<Rightarrow> Inl e
      | Inr (n, r') \<Rightarrow>
          let len = Number n;
              stop = jsAdd (Fin (int (offset r'))) len
          in if jsLt len (Fin 0) then Inl NegativeBinaryLength
             else if jsLt (Fin (int (length (buffer r')))) stop then Inl BufferUnderflowBinary
             else Inr (jsSlice (buffer r') (int (offset r'))
                         (toIntegerOrInfinity (length (buffer r')) stop),
                       r'\<lparr>offset := offsetOf stop\<rparr>))"

definition readBool :: "reader \<Rightarrow> error + (bool \<times> reader)" where
  "readBool r =
     (case boolValue r of
        Some v \<Rightarrow> Inr (v, r\<lparr>boolValue := None\<rparr>)
      | None \<Rightarrow>
          (case readByte r of
             Inl e \<Rightarrow> Inl e
           | Inr (byte, r') \<Rightarrow> Inr (byte = 1, r')))"

definition readStructBegin :: "reader \<Rightarrow> reader" where
  "readStructBegin r = r\<lparr>lastFieldId := lastFieldId r @ [Fin 0]\<rparr>"

definition readStructEnd :: "reader \<Rightarrow> reader" where
  "readStructEnd r = r\<lparr>lastFieldId := butlast (lastFieldId r)\<rparr>"

text \<open>
  \<open>this.lastFieldId[this.lastFieldId.length - 1]\<close>, read and written. On an empty stack the
  read is \<open>undefined\<close> (\<open>None\<close>) until the property \<open>-1\<close> has been written, and
  \<open>undefined + delta\<close> is NaN.
\<close>

definition topFieldId :: "reader \<Rightarrow> jsnum option" where
  "topFieldId r = (if lastFieldId r = [] then lastFieldIdM1 r else Some (last (lastFieldId r)))"

definition setTopFieldId :: "jsnum \<Rightarrow> reader \<Rightarrow> reader" where
  "setTopFieldId fieldId r =
     (if lastFieldId r = [] then r\<lparr>lastFieldIdM1 := Some fieldId\<rparr>
      else r\<lparr>lastFieldId := (lastFieldId r)[length (lastFieldId r) - 1 := fieldId]\<rparr>)"

definition plusDelta :: "jsnum option \<Rightarrow> nat \<Rightarrow> jsnum" where
  "plusDelta lastId delta = (case lastId of None \<Rightarrow> NaN | Some v \<Rightarrow> jsAdd v (Fin (int delta)))"

record field =
  ftype :: nat
  fid :: jsnum

definition readFieldBegin :: "reader \<Rightarrow> error + (field \<times> reader)" where
  "readFieldBegin r =
     (case readByte r of
        Inl e \<Rightarrow> Inl e
      | Inr (byte, r1) \<Rightarrow>
          if byte = 0 then Inr (\<lparr>ftype = Type_STOP, fid = Fin 0\<rparr>, r1)
          else
            let delta = unat (drop_bit 4 byte AND 0x0f);
                compactType = unat (byte AND 0x0f)
            in (case (if delta = 0
                      then (case readZigZag r1 of
                              Inl e \<Rightarrow> Inl e
                            | Inr (v, r2) \<Rightarrow> Inr (Number v, r2))
                      else Inr (plusDelta (topFieldId r1) delta, r1)) of
                  Inl e \<Rightarrow> Inl e
                | Inr (fieldId, r2) \<Rightarrow>
                    let r3 = setTopFieldId fieldId r2;
                        r4 = (if compactType = COMPACT_BOOL_TRUE then r3\<lparr>boolValue := Some True\<rparr>
                              else if compactType = COMPACT_BOOL_FALSE then r3\<lparr>boolValue := Some False\<rparr>
                              else r3)
                    in Inr (\<lparr>ftype = compactTypeToThriftType compactType, fid = fieldId\<rparr>, r4)))"

section \<open>parquetParser.js: the footer\<close>

definition PARQUET_MAGIC :: "byte list" where
  "PARQUET_MAGIC = [0x50, 0x41, 0x52, 0x31]"

text \<open>The loop of \<open>bytesEqual\<close>, run after the lengths were compared.\<close>

fun bytesEqual_loop :: "byte list \<Rightarrow> byte list \<Rightarrow> bool" where
  "bytesEqual_loop [] b = True"
| "bytesEqual_loop (x # a) [] = False"
| "bytesEqual_loop (x # a) (y # b) = (if x \<noteq> y then False else bytesEqual_loop a b)"

definition bytesEqual :: "byte list \<Rightarrow> byte list \<Rightarrow> bool" where
  "bytesEqual a b = (if length a \<noteq> length b then False else bytesEqual_loop a b)"

text \<open>
  \<open>new DataView(buffer, byteOffset, 4).getUint32(0, true)\<close> over the bytes \<open>bs\<close>: the view
  cannot be made over fewer than four bytes.
\<close>

definition getUint32 :: "byte list \<Rightarrow> error + nat" where
  "getUint32 bs =
     (if length bs < 4 then Inl RangeError
      else Inr (unat (bs ! 0) + 256 * unat (bs ! 1) + 65536 * unat (bs ! 2) + 16777216 * unat (bs ! 3)))"

text \<open>
  A \<open>File\<close>: its bytes, and the ranges whose read the browser rejects
  (\<open>blob.arrayBuffer()\<close> fails, and \<open>readFileSlice\<close> throws an Error that names the range).
\<close>

record jsFile =
  contents :: "byte list"
  unreadable :: "int \<Rightarrow> int \<Rightarrow> bool"

text \<open>
  The streaming functions read the file as they go. A computation takes the list of the
  ranges read so far and returns it extended, with an error or a result.
\<close>

type_synonym readLog = "(int \<times> int) list"
type_synonym 'a io = "readLog \<Rightarrow> readLog \<times> (error + 'a)"

definition returnIO :: "'a \<Rightarrow> 'a io" where
  "returnIO x seen = (seen, Inr x)"

definition throwIO :: "error \<Rightarrow> 'a io" where
  "throwIO e seen = (seen, Inl e)"

definition bindIO :: "'a io \<Rightarrow> ('a \<Rightarrow> 'b io) \<Rightarrow> 'b io" where
  "bindIO m f seen = (case m seen of (seen', Inl e) \<Rightarrow> (seen', Inl e) | (seen', Inr x) \<Rightarrow> f x seen')"

definition readFileSlice :: "jsFile \<Rightarrow> int \<Rightarrow> int \<Rightarrow> byte list io" where
  "readFileSlice file start stop seen =
     (seen @ [(start, stop)],
      if unreadable file start stop then Inl (ReadFailed start stop)
      else Inr (jsSlice (contents file) start stop))"

text \<open>
  Modelled from the spec: \<open>parquet_types.js\<close>, the generated classes \<open>FileMetaData\<close>,
  \<open>ColumnIndex\<close> and \<open>OffsetIndex\<close> with their \<open>read\<close> methods, is not among the sources. Of
  the file metadata the parser uses \<open>row_groups\<close>, of a row group \<open>columns\<close>, and of a column
  chunk the four fields that locate its indexes; such a field is a Number that holds an
  integer, or \<open>None\<close> when it is null. In \<open>parsePageIndexes\<close> the end of a slice of the buffer
  is written as the exact sum: \<open>slice\<close> clamps it to the length of the buffer, which is
  below \<open>2^53\<close>, where the sum of the Numbers is exact.

  A \<open>read\<close> method is a parameter of the parser: from the bytes handed to the reader it
  gives the object as \<open>read\<close> leaves it, and the error it threw, if any.
\<close>

record ColumnChunk =
  column_index_offset :: "int option"
  column_index_length :: "int option"
  offset_index_offset :: "int option"
  offset_index_length :: "int option"

record RowGroup =
  columns :: "ColumnChunk list"

record FileMetaData =
  row_groups :: "RowGroup list"

type_synonym 'a decoder = "byte list \<Rightarrow> 'a \<times> error option"

text \<open>One entry of \<open>pageIndexes[rgIdx][colIdx]\<close>, and the object the parse returns.\<close>

record ('ci, 'oi) colIndex =
  columnIndex :: "'ci option"
  offsetIndex :: "'oi option"

record ('ci, 'oi) parsed =
  fileSize :: nat
  footerLength :: nat
  footerStart :: int
  fileMetaData :: FileMetaData
  pageIndexes :: "('ci, 'oi) colIndex list list"

text \<open>\<open>x_offset && x_length\<close>: both present and neither zero; then the range they give.\<close>

definition indexRange :: "int option \<Rightarrow> int option \<Rightarrow> (int \<times> int) option" where
  "indexRange off len =
     (case off of
        None \<Rightarrow> None
      | Some pos \<Rightarrow>
          (case len of
             None \<Rightarrow> None
           | Some n \<Rightarrow> if pos \<noteq> 0 \<and> n \<noteq> 0 then Some (pos, n) else None))"

section \<open>parquetParser.js: page indexes from a buffer\<close>

text \<open>
  The body of the inner loop of \<open>parsePageIndexes\<close>. Each index is assigned to its slot
  before \<open>read\<close> runs, and an exception of \<open>read\<close> is caught: the slot keeps the object as
  \<open>read\<close> left it.
\<close>

definition parseColumnChunk ::
    "'ci decoder \<Rightarrow> 'oi decoder \<Rightarrow> byte list \<Rightarrow> ColumnChunk \<Rightarrow> ('ci, 'oi) colIndex" where
  "parseColumnChunk readColumnIndex readOffsetIndex bytes columnChunk =
     (let colIndex0 = \<lparr>columnIndex = None, offsetIndex = None\<rparr>;
          colIndex1 =
            (case indexRange (column_index_offset columnChunk) (column_index_length columnChunk) of
               None \<Rightarrow> colIndex0
             | Some (pos, n) \<Rightarrow>
                 colIndex0\<lparr>columnIndex :=
                   Some (fst (readColumnIndex (jsSlice bytes pos (pos + n))))\<rparr>)
      in case indexRange (offset_index_offset columnChunk) (offset_index_length columnChunk) of
           None \<Rightarrow> colIndex1
         | Some (pos, n) \<Rightarrow>
             colIndex1\<lparr>offsetIndex :=
               Some (fst (readOffsetIndex (jsSlice bytes pos (pos + n))))\<rparr>)"

definition parsePageIndexes ::
    "'ci decoder \<Rightarrow> 'oi decoder \<Rightarrow> byte list \<Rightarrow> FileMetaData \<Rightarrow> ('ci, 'oi) colIndex list list" where
  "parsePageIndexes readColumnIndex readOffsetIndex bytes md =
     map (\<lambda>rowGroup. map (parseColumnChunk readColumnIndex readOffsetIndex bytes) (columns rowGroup))
       (row_groups md)"

section \<open>parquetParser.js: page indexes from a file, in batches\<close>

datatype indexType = columnIndexType | offsetIndexType

record readRequest =
  rgIdx :: nat
  colIdx :: nat
  rtype :: indexType
  roffset :: int
  rlength :: int

record batch =
  bstart :: int
  bend :: int
  requests :: "readRequest list"

text \<open>The requests of one column chunk, of one row group, and of the file, in loop order.\<close>

definition columnRequests :: "nat \<Rightarrow> nat \<Rightarrow> ColumnChunk \<Rightarrow> readRequest list" where
  "columnRequests rg col columnChunk =
     (case indexRange (column_index_offset columnChunk) (column_index_length columnChunk) of
        None \<Rightarrow> []
      | Some (pos, n) \<Rightarrow>
          [\<lparr>rgIdx = rg, colIdx = col, rtype = columnIndexType, roffset = pos, rlength = n\<rparr>])
     @ (case indexRange (offset_index_offset columnChunk) (offset_index_length columnChunk) of
        None \<Rightarrow> []
      | Some (pos, n) \<Rightarrow>
          [\<lparr>rgIdx = rg, colIdx = col, rtype = offsetIndexType, roffset = pos, rlength = n\<rparr>])"

definition readRequests :: "FileMetaData \<Rightarrow> readRequest list" where
  "readRequests md =
     concat (map (\<lambda>(rg, rowGroup).
                    concat (map (\<lambda>(col, columnChunk). columnRequests rg col columnChunk)
                              (enumerate 0 (columns rowGroup))))
               (enumerate 0 (row_groups md)))"

definition MAX_GAP :: int where
  "MAX_GAP = 64 * 1024"

text \<open>
  The batching loop over the sorted requests, with its variables \<open>currentBatch\<close> and
  \<open>batches\<close>. The gap is the constant \<open>MAX_GAP\<close> in the source; the loop takes it as an
  argument here, and \<open>parsePageIndexesStreaming\<close> passes \<open>MAX_GAP\<close>. The sums are sums of
  Numbers.
\<close>

definition newBatch :: "readRequest \<Rightarrow> batch" where
  "newBatch req =
     \<lparr>bstart = roffset req, bend = numAdd (roffset req) (rlength req), requests = [req]\<rparr>"

fun batchLoop :: "int \<Rightarrow> readRequest list \<Rightarrow> batch option \<Rightarrow> batch list \<Rightarrow> batch option \<times> batch list" where
  "batchLoop gap [] currentBatch batches = (currentBatch, batches)"
| "batchLoop gap (req # rest) None batches = batchLoop gap rest (Some (newBatch req)) batches"
| "batchLoop gap (req # rest) (Some cur) batches =
     (if roffset req \<le> numAdd (bend cur) gap
      then batchLoop gap rest
             (Some (cur\<lparr>bend := max (bend cur) (numAdd (roffset req) (rlength req)),
                        requests := requests cur @ [req]\<rparr>)) batches
      else batchLoop gap rest (Some (newBatch req)) (batches @ [cur]))"

definition makeBatches :: "int \<Rightarrow> readRequest list \<Rightarrow> batch list" where
  "makeBatches gap reqs =
     (case batchLoop gap reqs None [] of
        (None, batches) \<Rightarrow> batches
      | (Some cur, batches) \<Rightarrow> batches @ [cur])"

text \<open>
  The body of the loop over the requests of a batch. The statement that fills the slot is
  inside the \<open>try\<close>, after \<open>read\<close>: when \<open>read\<close> throws, the slot is left as it was. An update
  outside the lists changes nothing.
\<close>

definition updateSlot ::
    "('ci, 'oi) colIndex list list \<Rightarrow> nat \<Rightarrow> nat \<Rightarrow> (('ci, 'oi) colIndex \<Rightarrow> ('ci, 'oi) colIndex)
       \<Rightarrow> ('ci, 'oi) colIndex list list" where
  "updateSlot indexes rg col f = indexes[rg := (indexes ! rg)[col := f (indexes ! rg ! col)]]"

definition applyRequest ::
    "'ci decoder \<Rightarrow> 'oi decoder \<Rightarrow> batch \<Rightarrow> byte list \<Rightarrow> ('ci, 'oi) colIndex list list \<Rightarrow> readRequest
       \<Rightarrow> ('ci, 'oi) colIndex list list" where
  "applyRequest readColumnIndex readOffsetIndex b batchBytes indexes req =
     (let localOffset = numSub (roffset req) (bstart b);
          indexBytes = jsSlice batchBytes localOffset (numAdd localOffset (rlength req))
      in case rtype req of
           columnIndexType \<Rightarrow>
             (case readColumnIndex indexBytes of
                (ci, None) \<Rightarrow> updateSlot indexes (rgIdx req) (colIdx req) (\<lambda>s. s\<lparr>columnIndex := Some ci\<rparr>)
              | (ci, Some e) \<Rightarrow> indexes)
         | offsetIndexType \<Rightarrow>
             (case readOffsetIndex indexBytes of
                (oi, None) \<Rightarrow> updateSlot indexes (rgIdx req) (colIdx req) (\<lambda>s. s\<lparr>offsetIndex := Some oi\<rparr>)
              | (oi, Some e) \<Rightarrow> indexes))"

definition initIndexes :: "FileMetaData \<Rightarrow> ('ci, 'oi) colIndex list list" where
  "initIndexes md =
     map (\<lambda>rowGroup. map (\<lambda>columnChunk. \<lparr>columnIndex = None, offsetIndex = None\<rparr>) (columns rowGroup))
       (row_groups md)"

text \<open>The loop over the batches: one read for each, outside any \<open>try\<close>.\<close>

fun processBatches ::
    "'ci decoder \<Rightarrow> 'oi decoder \<Rightarrow> jsFile \<Rightarrow> batch list \<Rightarrow> ('ci, 'oi) colIndex list list
       \<Rightarrow> ('ci, 'oi) colIndex list list io" where
  "processBatches readColumnIndex readOffsetIndex file [] indexes = returnIO indexes"
| "processBatches readColumnIndex readOffsetIndex file (b # rest) indexes =
     bindIO (readFileSlice file (bstart b) (bend b))
       (\<lambda>batchBytes.
          processBatches readColumnIndex readOffsetIndex file rest
            (foldl (applyRequest readColumnIndex readOffsetIndex b batchBytes) indexes (requests b)))"

definition parsePageIndexesStreaming ::
    "'ci decoder \<Rightarrow> 'oi decoder \<Rightarrow> jsFile \<Rightarrow> FileMetaData \<Rightarrow> ('ci, 'oi) colIndex list list io" where
  "parsePageIndexesStreaming readColumnIndex readOffsetIndex file md =
     processBatches readColumnIndex readOffsetIndex file
       (makeBatches MAX_GAP (sort_key roffset (readRequests md)))
       (initIndexes md)"

section \<open>parquetParser.js: the two entry points\<close>

definition parseParquetFile ::
    "FileMetaData decoder \<Rightarrow> 'ci decoder \<Rightarrow> 'oi decoder \<Rightarrow> byte list \<Rightarrow> error + ('ci, 'oi) parsed" where
  "parseParquetFile readFileMetaData readColumnIndex readOffsetIndex bytes =
     (let sz = length bytes in
      if sz < 12 then Inl FileTooSmall
      else if \<not> bytesEqual (jsSlice bytes 0 4) PARQUET_MAGIC then Inl MissingHeaderMagic
      else if \<not> bytesEqual (jsSlice bytes (int sz - 4) (int sz)) PARQUET_MAGIC
        then Inl MissingFooterMagic
      else
        (case getUint32 (jsSlice bytes (int sz - 8) (int sz - 4)) of
           Inl e \<Rightarrow> Inl e
         | Inr len \<Rightarrow>
             if int sz - 8 < int len then Inl (InvalidFooterLength len)
             else
               let start = int sz - 8 - int len;
                   footerBytes = jsSlice bytes start (start + int len)
               in (case readFileMetaData footerBytes of
                     (md, Some e) \<Rightarrow> Inl e
                   | (md, None) \<Rightarrow>
                       Inr \<lparr>fileSize = sz, footerLength = len, footerStart = start,
                            fileMetaData = md,
                            pageIndexes = parsePageIndexes readColumnIndex readOffsetIndex bytes md\<rparr>)))"

definition parseParquetFileStreaming ::
    "FileMetaData decoder \<Rightarrow> 'ci decoder \<Rightarrow> 'oi decoder \<Rightarrow> jsFile \<Rightarrow> ('ci, 'oi) parsed io" where
  "parseParquetFileStreaming readFileMetaData readColumnIndex readOffsetIndex file =
     (let sz = length (contents file) in
      if sz < 12 then throwIO FileTooSmall
      else
        bindIO (readFileSlice file 0 4) (\<lambda>headerMagic.
          if \<not> bytesEqual headerMagic PARQUET_MAGIC then throwIO MissingHeaderMagic
          else
            bindIO (readFileSlice file (int sz - 8) (int sz)) (\<lambda>footerEnd.
              if \<not> bytesEqual (jsSlice footerEnd 4 8) PARQUET_MAGIC then throwIO MissingFooterMagic
              else
                (case getUint32 (take 4 footerEnd) of
                   Inl e \<Rightarrow> throwIO e
                 | Inr len \<Rightarrow>
                     if int sz - 8 < int len then throwIO (InvalidFooterLength len)
                     else
                       let start = int sz - 8 - int len in
                       bindIO (readFileSlice file start (start + int len)) (\<lambda>footerBytes.
                         (case readFileMetaData footerBytes of
                            (md, Some e) \<Rightarrow> throwIO e
                          | (md, None) \<Rightarrow>
                              bindIO (parsePageIndexesStreaming readColumnIndex readOffsetIndex file md)
                                (\<lambda>indexes.
                                   returnIO \<lparr>fileSize = sz, footerLength = len, footerStart = start,
                                             fileMetaData = md, pageIndexes = indexes\<rparr>)))))))"

text \<open>
  The spec's \<open>InvalidFormat\<close>: a bad or missing magic marker, or a footer length that
  exceeds the file.
\<close>

fun InvalidFormat :: "error \<Rightarrow> bool" where
  "InvalidFormat MissingHeaderMagic = True"
| "InvalidFormat MissingFooterMagic = True"
| "InvalidFormat (InvalidFooterLength n) = True"
| "InvalidFormat e = False"


section \<open>statsFormatter.js: strings and decimals\<close>

text \<open>
  Strings of ASCII characters are \<open>string\<close>. \<open>toString\<close> is \<open>toString()\<close> of a BigInt, and of a
  Number that holds an integer below \<open>10^21\<close>: the decimal digits, after \<open>-\<close> when negative.
  \<open>toString16\<close> is \<open>toString(16)\<close> of a byte.

  The engine bounds the length of a string: \<open>maxLen\<close> is its maximum string length (between
  \<open>2^28\<close> and \<open>2^31\<close> in the engines of the browsers), and \<open>padStart\<close> and \<open>+\<close> throw a
  RangeError when their result would be longer. The decimal string of an integer that
  the engine holds is taken to be within the limit.
\<close>

definition digitChar :: "nat \<Rightarrow> char" where
  "digitChar d = ''0123456789abcdef'' ! d"

fun digits :: "nat \<Rightarrow> string" where
  "digits n = (if n < 10 then [digitChar n] else digits (n div 10) @ [digitChar (n mod 10)])"

declare digits.simps [simp del]



definition toString :: "int \<Rightarrow> string" where
  "toString v = (if v < 0 then CHR ''-'' # digits (nat (- v)) else digits (nat v))"


definition startsWith :: "string \<Rightarrow> string \<Rightarrow> bool" where
  "startsWith s p = (take (length p) s = p)"

definition padStart :: "nat \<Rightarrow> string \<Rightarrow> int \<Rightarrow> char \<Rightarrow> error + string" where
  "padStart maxLen s targetLength c =
     (if targetLength \<le> int (length s) then Inr s
      else if int maxLen < targetLength then Inl RangeError
      else Inr (replicate (nat targetLength - length s) c @ s))"

definition strAppend :: "nat \<Rightarrow> string \<Rightarrow> string \<Rightarrow> error + string" where
  "strAppend maxLen a b = (if maxLen < length a + length b then Inl RangeError else Inr (a @ b))"

text \<open>\<open>a || b\<close> on strings: the empty string is falsy.\<close>

definition orElse :: "string \<Rightarrow> string \<Rightarrow> string" where
  "orElse a b = (if a = [] then b else a)"

text \<open>
  \<open>formatDecimal\<close>: the body of its \<open>try\<close>, where \<open>Inl\<close> is an exception thrown, and the
  function with its \<open>catch\<close>, which returns the decimal string of the integer.
\<close>

definition formatDecimal_body :: "nat \<Rightarrow> int \<Rightarrow> int \<Rightarrow> error + string" where
  "formatDecimal_body maxLen intValue scale =
     (let str = toString intValue in
      if scale = 0 then Inr str
      else
        let isNegative = startsWith str ''-'';
            absStr = (if isNegative then jsSliceFrom str 1 else str)
        in case padStart maxLen absStr (scale + 1) CHR ''0'' of
             Inl e \<Rightarrow> Inl e
           | Inr padded \<Rightarrow>
               (let intPart = orElse (jsSlice padded 0 (- scale)) ''0'';
                    decPart = jsSliceFrom padded (- scale)
                in case strAppend maxLen (if isNegative then ''-'' else []) intPart of
                     Inl e \<Rightarrow> Inl e
                   | Inr withSign \<Rightarrow>
                       (case strAppend maxLen withSign ''.'' of
                          Inl e \<Rightarrow> Inl e
                        | Inr withPoint \<Rightarrow> strAppend maxLen withPoint decPart)))"

definition formatDecimal :: "nat \<Rightarrow> int \<Rightarrow> int \<Rightarrow> string" where
  "formatDecimal maxLen intValue scale =
     (case formatDecimal_body maxLen intValue scale of
        Inr s \<Rightarrow> s
      | Inl e \<Rightarrow> toString intValue)"

text \<open>The number that a string of decimal digits writes.\<close>

definition digitValue :: "char \<Rightarrow> nat" where
  "digitValue c = of_char c - 48"

definition decimalValue :: "string \<Rightarrow> nat" where
  "decimalValue s = foldl (\<lambda>acc c. 10 * acc + digitValue c) 0 s"

section \<open>statsFormatter.js: statistics values\<close>
















text \<open>
  The schema element, as far as the formatter reads it. A member of a union is set or not;
  a field that is absent is \<open>None\<close>.
\<close>

record TimeUnit =
  MILLIS :: bool
  MICROS :: bool
  NANOS :: bool

record TimeType =
  time_isAdjustedToUTC :: "bool option"
  time_unit :: "TimeUnit option"

record IntType =
  int_bitWidth :: "int option"
  int_isSigned :: "bool option"

record DecimalType =
  decimal_scale :: "int option"
  decimal_precision :: "int option"

record LogicalType =
  STRING :: bool
  DATE :: bool
  TIME :: "TimeType option"
  TIMESTAMP :: "TimeType option"
  INTEGER :: "IntType option"
  DECIMAL :: "DecimalType option"
  UUID :: bool
  JSON :: bool
  BSON :: bool
  ENUM :: bool

record SchemaElement =
  logicalType :: "LogicalType option"
  converted_type :: "int option"
  scale :: "int option"
  precision :: "int option"












































section \<open>Batching, as the specification words it\<close>

text \<open>
  The merge with exact integers: a request joins the running batch when its offset is at
  most the end of the batch plus the gap, and joining sets the end to the larger of the
  end and \<open>offset + length\<close>.
\<close>

definition exactBatch :: "readRequest \<Rightarrow> batch" where
  "exactBatch req = \<lparr>bstart = roffset req, bend = roffset req + rlength req, requests = [req]\<rparr>"

fun exactLoop :: "int \<Rightarrow> readRequest list \<Rightarrow> batch option \<Rightarrow> batch list \<Rightarrow> batch option \<times> batch list" where
  "exactLoop gap [] currentBatch batches = (currentBatch, batches)"
| "exactLoop gap (req # rest) None batches = exactLoop gap rest (Some (exactBatch req)) batches"
| "exactLoop gap (req # rest) (Some cur) batches =
     (if roffset req \<le> bend cur + gap
      then exactLoop gap rest
             (Some (cur\<lparr>bend := max (bend cur) (roffset req + rlength req),
                        requests := requests cur @ [req]\<rparr>)) batches
      else exactLoop gap rest (Some (exactBatch req)) (batches @ [cur]))"

definition exactBatches :: "int \<Rightarrow> readRequest list \<Rightarrow> batch list" where
  "exactBatches gap reqs =
     (case exactLoop gap reqs None [] of
        (None, batches) \<Rightarrow> batches
      | (Some cur, batches) \<Rightarrow> batches @ [cur])"

text \<open>
  A request is a byte range, for a gap, when its offset and its length are not negative
  and its end plus the gap is at most \<open>2^53\<close>, so that every sum met is an exact Number.
\<close>

definition byteRange :: "int \<Rightarrow> readRequest \<Rightarrow> bool" where
  "byteRange gap r \<longleftrightarrow> 0 \<le> roffset r \<and> 0 \<le> rlength r \<and> roffset r + rlength r + gap \<le> 2 ^ 53"

text \<open>
  What the specification says of a request: its index is decoded from the bytes of the
  file at \<open>[offset, offset + length)\<close>, and stored in its slot when the decoding succeeded.
\<close>

definition directRequest ::
    "'ci decoder \<Rightarrow> 'oi decoder \<Rightarrow> byte list \<Rightarrow> ('ci, 'oi) colIndex list list \<Rightarrow> readRequest
       \<Rightarrow> ('ci, 'oi) colIndex list list" where
  "directRequest readColumnIndex readOffsetIndex fileBytes indexes req =
     (let indexBytes = jsSlice fileBytes (roffset req) (roffset req + rlength req)
      in case rtype req of
           columnIndexType \<Rightarrow>
             (case readColumnIndex indexBytes of
                (ci, None) \<Rightarrow> updateSlot indexes (rgIdx req) (colIdx req) (\<lambda>s. s\<lparr>columnIndex := Some ci\<rparr>)
              | (ci, Some e) \<Rightarrow> indexes)
         | offsetIndexType \<Rightarrow>
             (case readOffsetIndex indexBytes of
                (oi, None) \<Rightarrow> updateSlot indexes (rgIdx req) (colIdx req) (\<lambda>s. s\<lparr>offsetIndex := Some oi\<rparr>)
              | (oi, Some e) \<Rightarrow> indexes))"

text \<open>
  A batch is greedy when it starts at its first request, ends at the largest end of its
  requests, and every later request of it starts no further than the gap after the
  largest end before it. Batches are separated when each starts further than the gap
  after the end of the one before.
\<close>

definition requestEnd :: "readRequest \<Rightarrow> int" where
  "requestEnd r = roffset r + rlength r"

definition greedyBatch :: "int \<Rightarrow> batch \<Rightarrow> bool" where
  "greedyBatch gap b \<longleftrightarrow>
     requests b \<noteq> []
     \<and> bstart b = roffset (hd (requests b))
     \<and> bend b = Max (requestEnd ` set (requests b))
     \<and> (\<forall>i. 0 < i \<and> i < length (requests b) \<longrightarrow>
            roffset (requests b ! i) \<le> Max (requestEnd ` set (take i (requests b))) + gap)"

definition separatedBatches :: "int \<Rightarrow> batch list \<Rightarrow> bool" where
  "separatedBatches gap bs \<longleftrightarrow> (\<forall>j. Suc j < length bs \<longrightarrow> bend (bs ! j) + gap < bstart (bs ! Suc j))"

text \<open>The batches of a state of the loop, the one in progress last; the range and the decoding of a batch.\<close>

definition openBatch :: "batch option \<Rightarrow> batch list" where
  "openBatch cur = (case cur of None \<Rightarrow> [] | Some b \<Rightarrow> [b])"


definition batchRange :: "batch \<Rightarrow> int \<times> int" where
  "batchRange b = (bstart b, bend b)"

definition decodeBatch ::
    "'ci decoder \<Rightarrow> 'oi decoder \<Rightarrow> jsFile \<Rightarrow> ('ci, 'oi) colIndex list list \<Rightarrow> batch
       \<Rightarrow> ('ci, 'oi) colIndex list list" where
  "decodeBatch dci doi file indexes b =
     foldl (applyRequest dci doi b (jsSlice (contents file) (bstart b) (bend b))) indexes (requests b)"


(*PROPERTIES*)

section \<open>Properties of the reader\<close>

subsection \<open>Numbers\<close>

lemma zigzag_arith: "zigzag n = (if even n then n div 2 else - (n div 2) - 1)"
  apply (simp add: zigzag_def drop_bit_eq_div and_one_eq)
  apply (auto simp: not_int_def mod_2_eq_odd)
  done

lemma roundMagnitude_large:
  assumes "2 ^ 53 < a"
  shows "2 ^ 53 \<le> roundMagnitude a"
proof -
  define e where "e = nat (bitlen a) - 53"
  define q where "q = a div 2 ^ e"
  define q' where "q' = (if 2 ^ (e - 1) < a mod 2 ^ e \<or> (a mod 2 ^ e = 2 ^ (e - 1) \<and> odd q) then q + 1 else q)"
  have vpos: "0 < a" using assms by (smt (verit) zero_less_power)
  have "\<not> a < 2 ^ 53" using assms by simp
  then have bl: "54 \<le> bitlen a"
    using bitlen_le_iff_power [of a 53] by simp
  then have e1: "1 \<le> e" and e_eq: "nat (bitlen a - 1) = 52 + e" by (auto simp: e_def)
  have "2 ^ (nat (bitlen a - 1)) \<le> a"
    using bitlen_bounds [OF vpos] by simp
  then have le: "(2::int) ^ 52 * 2 ^ e \<le> a" unfolding e_eq power_add .
  have "(2::int) ^ 52 * 2 ^ e div 2 ^ e \<le> a div 2 ^ e"
    by (rule zdiv_mono1 [OF le]) simp
  then have "(2::int) ^ 52 \<le> q"
    unfolding q_def by (simp only: nonzero_mult_div_cancel_right power_not_zero zero_neq_numeral not_False_eq_True)
  moreover have "q \<le> q'" unfolding q'_def by (simp only: split: if_splits) auto
  ultimately have q52: "(2::int) ^ 52 \<le> q'" by (rule order_trans)
  have "(2::int) ^ 1 \<le> 2 ^ e" using e1 by (intro power_increasing) auto
  then have "(2::int) ^ 52 * 2 ^ 1 \<le> 2 ^ 52 * 2 ^ e" by (intro mult_left_mono) auto
  then have "(2::int) ^ 53 \<le> 2 ^ 52 * 2 ^ e" by simp
  also have "\<dots> \<le> q' * 2 ^ e" using q52 by (intro mult_right_mono) auto
  finally have m: "2 ^ 53 \<le> q' * 2 ^ e" .
  have "roundMagnitude a = q' * 2 ^ e"
    unfolding roundMagnitude_def Let_def q'_def q_def e_def ..
  with m show ?thesis by simp
qed

lemma roundDouble_small: "\<bar>v\<bar> \<le> 2 ^ 53 \<Longrightarrow> roundDouble v = Fin v"
  by (simp add: roundDouble_def)

lemma roundDouble_large:
  assumes "2 ^ 53 < v"
  shows "roundDouble v = PInf \<or> (\<exists>m. roundDouble v = Fin m \<and> 2 ^ 53 \<le> m)"
proof -
  have "0 < v" using assms by (smt (verit) zero_less_power)
  then have "\<bar>v\<bar> = v" by simp
  with assms roundMagnitude_large [OF assms] show ?thesis
    unfolding roundDouble_def by (simp only: split: if_splits) auto
qed

subsection \<open>Zig-zag integers\<close>

text \<open>
  Claim C5. For every unsigned varint value \<open>n\<close> that \<open>readVarint\<close> returns,
  \<open>readZigZag\<close> returns \<open>(n >> 1) XOR (-(n AND 1))\<close>, which is \<open>n div 2\<close> for an even \<open>n\<close>
  and \<open>-(n div 2) - 1\<close> for an odd one, so that 0, 1, 2, 3, 4 decode to 0, -1, 1, -2, 2;
  and it fails as \<open>readVarint\<close> does. \<open>readI16\<close>, \<open>readI32\<close> and \<open>readI64\<close> return the Number
  of that value (\<open>readI64\<close> the BigInt itself outside the safe integers), and so does the
  field id of a long-form field header.
\<close>

theorem readZigZag_mapping:
  "readZigZag r =
     (case readVarint r of Inl e \<Rightarrow> Inl e | Inr (n, r') \<Rightarrow> Inr (drop_bit 1 n XOR (- (n AND 1)), r'))
   \<and> (\<forall>n. drop_bit 1 n XOR (- (n AND 1)) = (if even n then n div 2 else - (n div 2) - (1::int)))
   \<and> map (\<lambda>n. drop_bit 1 n XOR (- (n AND 1))) [0, 1, 2, 3, 4 :: int] = [0, - 1, 1, - 2, 2]
   \<and> readI16 r =
       (case readVarint r of Inl e \<Rightarrow> Inl e
        | Inr (n, r') \<Rightarrow> Inr (Number (drop_bit 1 n XOR (- (n AND 1))), r'))
   \<and> readI32 r =
       (case readVarint r of Inl e \<Rightarrow> Inl e
        | Inr (n, r') \<Rightarrow> Inr (Number (drop_bit 1 n XOR (- (n AND 1))), r'))
   \<and> readI64 r =
       (case readVarint r of Inl e \<Rightarrow> Inl e
        | Inr (n, r') \<Rightarrow>
            Inr (if - (2 ^ 53 - 1) \<le> drop_bit 1 n XOR (- (n AND 1)) \<and> drop_bit 1 n XOR (- (n AND 1)) \<le> 2 ^ 53 - 1
                 then JSNumber (Number (drop_bit 1 n XOR (- (n AND 1))))
                 else JSBigInt (drop_bit 1 n XOR (- (n AND 1))), r'))
   \<and> (\<forall>b r1. readByte r = Inr (b, r1) \<and> b \<noteq> 0 \<and> drop_bit 4 b AND 0x0f = 0 \<longrightarrow>
         map_sum id (\<lambda>(f, r2). fid f) (readFieldBegin r) =
         map_sum id (\<lambda>(n, r2). Number (drop_bit 1 n XOR (- (n AND 1)))) (readVarint r1))"
proof -
  have zz: "\<And>n. drop_bit 1 n XOR (- (n AND 1)) = zigzag n" by (simp add: zigzag_def)
  have a: "\<forall>n. zigzag n = (if even n then n div 2 else - (n div 2) - (1::int))"
    using zigzag_arith by blast
  have b: "map zigzag [0, 1, 2, 3, 4 :: int] = [0, - 1, 1, - 2, 2]"
    by (simp add: zigzag_arith)
  have c: "\<forall>b r1. readByte r = Inr (b, r1) \<and> b \<noteq> 0 \<and> drop_bit 4 b AND 0x0f = 0 \<longrightarrow>
         map_sum id (\<lambda>(f, r2). fid f) (readFieldBegin r) =
         map_sum id (\<lambda>(n, r2). Number (zigzag n)) (readVarint r1)"
    by (auto simp: readFieldBegin_def readZigZag_def Let_def split: sum.splits)
  show ?thesis
    unfolding zz using a b c
    by (auto simp: readZigZag_def readI16_def readI32_def readI64_def MAX_SAFE_INTEGER_def
        MIN_SAFE_INTEGER_def split: sum.splits)
qed

theorem readZigZag_mapping_witness:
  "readZigZag (newReader [3]) = Inr (- 2, newReader [3]\<lparr>offset := 1\<rparr>)
   \<and> readI32 (newReader [4]) = Inr (Fin 2, newReader [4]\<lparr>offset := 1\<rparr>)
   \<and> map_sum id (\<lambda>(f, r2). fid f) (readFieldBegin (newReader [0x05, 0x03])) = Inr (Fin (- 2))"
  using readZigZag_mapping [of "newReader [3]"] readZigZag_mapping [of "newReader [4]"]
    readZigZag_mapping [of "newReader [0x05, 0x03]"]
  by (simp add: readVarint_def newReader_def readVarint_loop.simps readByte_def Number_def roundDouble_def)

subsection \<open>Varints and binaries\<close>

lemma readVarint_loop_frame:
  "readVarint_loop r res sh = Inr (n, r') \<Longrightarrow>
     r' = r\<lparr>offset := offset r'\<rparr> \<and> offset r < offset r' \<and> offset r' \<le> length (buffer r)"
proof (induction r res sh rule: readVarint_loop.induct)
  case (1 r result shift)
  show ?case
  proof (cases "length (buffer r) \<le> offset r")
    case True
    with "1.prems" show ?thesis by (subst (asm) readVarint_loop.simps) simp
  next
    case False
    show ?thesis
    proof (cases "(buffer r ! offset r) AND 0x80 \<noteq> 0")
      case True
      with False "1.prems" have
        "readVarint_loop (r\<lparr>offset := offset r + 1\<rparr>)
           (result OR push_bit shift (uint ((buffer r ! offset r) AND 0x7f))) (shift + 7) = Inr (n, r')"
        by (subst (asm) readVarint_loop.simps) simp
      from "1.IH" [OF False True this] show ?thesis by auto
    next
      case F2: False
      with False "1.prems" show ?thesis
        by (subst (asm) readVarint_loop.simps) auto
    qed
  qed
qed

lemma readVarint_loop_nonneg:
  "readVarint_loop r res sh = Inr (n, r') \<Longrightarrow> 0 \<le> res \<Longrightarrow> 0 \<le> n"
proof (induction r res sh rule: readVarint_loop.induct)
  case (1 r result shift)
  have nn: "0 \<le> result OR push_bit shift (uint ((buffer r ! offset r) AND 0x7f))"
    using "1.prems"(2) by simp
  show ?case
  proof (cases "length (buffer r) \<le> offset r")
    case True
    with "1.prems" show ?thesis by (subst (asm) readVarint_loop.simps) simp
  next
    case False
    show ?thesis
    proof (cases "(buffer r ! offset r) AND 0x80 \<noteq> 0")
      case True
      with False "1.prems" have
        "readVarint_loop (r\<lparr>offset := offset r + 1\<rparr>)
           (result OR push_bit shift (uint ((buffer r ! offset r) AND 0x7f))) (shift + 7) = Inr (n, r')"
        by (subst (asm) readVarint_loop.simps) simp
      from "1.IH" [OF False True this nn] show ?thesis .
    next
      case F2: False
      with False "1.prems"(1) nn show ?thesis
        by (subst (asm) readVarint_loop.simps) auto
    qed
  qed
qed

lemma readVarint_loop_error:
  "readVarint_loop r res sh = Inl e \<Longrightarrow> e = BufferUnderflowVarint"
proof (induction r res sh rule: readVarint_loop.induct)
  case (1 r result shift)
  show ?case
  proof (cases "length (buffer r) \<le> offset r")
    case True
    with "1.prems" show ?thesis by (subst (asm) readVarint_loop.simps) simp
  next
    case False
    show ?thesis
    proof (cases "(buffer r ! offset r) AND 0x80 \<noteq> 0")
      case True
      with False "1.prems" have
        "readVarint_loop (r\<lparr>offset := offset r + 1\<rparr>)
           (result OR push_bit shift (uint ((buffer r ! offset r) AND 0x7f))) (shift + 7) = Inl e"
        by (subst (asm) readVarint_loop.simps) simp
      from "1.IH" [OF False True this] show ?thesis .
    next
      case F2: False
      with False "1.prems" show ?thesis
        by (subst (asm) readVarint_loop.simps) auto
    qed
  qed
qed

lemma readVarint_frame:
  "readVarint r = Inr (n, r') \<Longrightarrow>
     r' = r\<lparr>offset := offset r'\<rparr> \<and> offset r < offset r' \<and> offset r' \<le> length (buffer r) \<and> 0 \<le> n"
  unfolding readVarint_def
  using readVarint_loop_frame [of r 0 0 n r'] readVarint_loop_nonneg [of r 0 0 n r'] by simp



lemma jsSlice_in_range:
  "0 \<le> s \<Longrightarrow> s \<le> e \<Longrightarrow> e \<le> int (length xs) \<Longrightarrow> jsSlice xs s e = take (nat (e - s)) (drop (nat s) xs)"
  by (auto simp: jsSlice_def relIndex_def min_def nat_diff_distrib)

lemma readBinary_eq:
  assumes rv: "readVarint r = Inr (L, r')" and sz: "length (buffer r) < 2 ^ 53"
  shows "readBinary r =
           (if int (length (buffer r)) < int (offset r') + L then Inl BufferUnderflowBinary
            else Inr (take (nat L) (drop (offset r') (buffer r)), r'\<lparr>offset := offset r' + nat L\<rparr>))"
proof -
  from readVarint_frame [OF rv] have fr: "r' = r\<lparr>offset := offset r'\<rparr>"
    and off: "offset r' \<le> length (buffer r)" and L0: "0 \<le> L" by auto
  from fr have buf: "buffer r' = buffer r" by (metis reader.select_convs(1) reader.surjective reader.update_convs(2))
  have szi: "int (length (buffer r)) < 2 ^ 53" using sz
    by (metis of_nat_less_iff of_nat_numeral of_nat_power)
  have offi: "int (offset r') < 2 ^ 53" using off szi by linarith
  show ?thesis
  proof (cases "L \<le> 2 ^ 53")
    case True
    then have len: "Number L = Fin L" using L0 by (simp add: Number_def roundDouble_small)
    show ?thesis
    proof (cases "int (offset r') + L \<le> 2 ^ 53")
      case T2: True
      then have st: "roundDouble (int (offset r') + L) = Fin (int (offset r') + L)"
        using L0 by (simp add: roundDouble_small)
      show ?thesis
        using rv L0 off
        by (auto simp: readBinary_def len st buf Let_def jsSlice_in_range nat_add_distrib)
    next
      case F2: False
      then have big: "2 ^ 53 < int (offset r') + L" by simp
      from roundDouble_large [OF big] szi big show ?thesis
        using rv L0 by (auto simp: readBinary_def len buf Let_def)
    qed
  next
    case False
    then have big: "2 ^ 53 < L" by simp
    then have lt: "int (length (buffer r)) < int (offset r') + L" using szi by linarith
    from roundDouble_large [OF big] consider "Number L = PInf" | m where "Number L = Fin m" "2 ^ 53 \<le> m"
      by (auto simp: Number_def)
    then show ?thesis
    proof cases
      case 1
      then show ?thesis using rv lt by (simp add: readBinary_def buf Let_def)
    next
      case 2
      have "roundDouble (int (offset r') + m) = PInf \<or> (\<exists>k. roundDouble (int (offset r') + m) = Fin k \<and> 2 ^ 53 \<le> k)"
      proof (cases "int (offset r') + m = 2 ^ 53")
        case True
        then show ?thesis by (simp add: roundDouble_small)
      next
        case False
        with 2 have "2 ^ 53 < int (offset r') + m" by linarith
        then show ?thesis by (rule roundDouble_large)
      qed
      with 2 szi lt rv show ?thesis
        by (auto simp: readBinary_def buf Let_def)
    qed
  qed
qed



lemma sint64_nonneg:
  assumes "0 \<le> L" "sint (word_of_int L :: 64 word) < 0" shows "2 ^ 63 \<le> L"
proof (rule ccontr)
  assume "\<not> 2 ^ 63 \<le> L"
  then have "L < 2 ^ 63" by simp
  with assms(1) have "sint (word_of_int L :: 64 word) = L"
    by (simp add: sint_sbintrunc' signed_take_bit_int_eq_self)
  with assms show False by simp
qed

lemma sint32_nonneg:
  assumes "0 \<le> L" "sint (word_of_int L :: 32 word) < 0" shows "2 ^ 31 \<le> L"
proof (rule ccontr)
  assume "\<not> 2 ^ 31 \<le> L"
  then have "L < 2 ^ 31" by simp
  with assms(1) have "sint (word_of_int L :: 32 word) = L"
    by (simp add: sint_sbintrunc' signed_take_bit_int_eq_self)
  with assms show False by simp
qed


text \<open>
  Claim C9. \<open>readBinary\<close> reads an unsigned varint length \<open>L\<close> and fails as \<open>readVarint\<close>
  does. When at least \<open>L\<close> bytes remain it returns exactly the next \<open>L\<close> bytes and advances
  the cursor by \<open>L\<close>; when fewer remain it fails with the error of a truncated binary. A
  length that is negative as a signed 64-bit integer is at least \<open>2^63\<close>, more than any
  buffer holds, so the read fails with that same error (and so does a length negative as a
  signed 32-bit integer on a buffer shorter than \<open>2^31\<close> bytes); the error of a negative
  length is never raised. The buffer is shorter than \<open>2^53\<close> bytes, as every typed array is.
\<close>

theorem readBinary_length_prefixed:
  assumes "length (buffer r) < 2 ^ 53"
  shows "(\<forall>e. readVarint r = Inl e \<longrightarrow> readBinary r = Inl e)
    \<and> (\<forall>L r'. readVarint r = Inr (L, r') \<longrightarrow>
          (int (offset r') + L \<le> int (length (buffer r)) \<longrightarrow>
             readBinary r = Inr (take (nat L) (drop (offset r') (buffer r)), r'\<lparr>offset := offset r' + nat L\<rparr>)
             \<and> int (length (take (nat L) (drop (offset r') (buffer r)))) = L)
        \<and> (int (length (buffer r)) < int (offset r') + L \<longrightarrow> readBinary r = Inl BufferUnderflowBinary)
        \<and> (sint (word_of_int L :: 64 word) < 0 \<longrightarrow> readBinary r = Inl BufferUnderflowBinary)
        \<and> (sint (word_of_int L :: 32 word) < 0 \<and> length (buffer r) < 2 ^ 31 \<longrightarrow>
             readBinary r = Inl BufferUnderflowBinary))
    \<and> readBinary r \<noteq> Inl NegativeBinaryLength"
proof -
  have szi: "int (length (buffer r)) < 2 ^ 53" using assms
    by (metis of_nat_less_iff of_nat_numeral of_nat_power)
  have 1: "\<forall>e. readVarint r = Inl e \<longrightarrow> readBinary r = Inl e"
    by (simp add: readBinary_def)
  have 2: "readBinary r \<noteq> Inl NegativeBinaryLength"
  proof (cases "readVarint r")
    case (Inl e)
    then have "readVarint_loop r 0 0 = Inl e" by (simp add: readVarint_def)
    then have "e = BufferUnderflowVarint" by (rule readVarint_loop_error)
    with Inl show ?thesis by (simp add: readBinary_def)
  next
    case (Inr p)
    then obtain L r' where "readVarint r = Inr (L, r')" by (cases p) auto
    from readBinary_eq [OF this assms] show ?thesis by (simp split: if_splits)
  qed
  have 3: "\<forall>L r'. readVarint r = Inr (L, r') \<longrightarrow>
          (int (offset r') + L \<le> int (length (buffer r)) \<longrightarrow>
             readBinary r = Inr (take (nat L) (drop (offset r') (buffer r)), r'\<lparr>offset := offset r' + nat L\<rparr>)
             \<and> int (length (take (nat L) (drop (offset r') (buffer r)))) = L)
        \<and> (int (length (buffer r)) < int (offset r') + L \<longrightarrow> readBinary r = Inl BufferUnderflowBinary)
        \<and> (sint (word_of_int L :: 64 word) < 0 \<longrightarrow> readBinary r = Inl BufferUnderflowBinary)
        \<and> (sint (word_of_int L :: 32 word) < 0 \<and> length (buffer r) < 2 ^ 31 \<longrightarrow>
             readBinary r = Inl BufferUnderflowBinary)"
  proof (intro allI impI)
    fix L r' assume rv: "readVarint r = Inr (L, r')"
    note eq = readBinary_eq [OF rv assms]
    from readVarint_frame [OF rv] have L0: "0 \<le> L" and off: "offset r' \<le> length (buffer r)" by auto
    have a: "int (offset r') + L \<le> int (length (buffer r)) \<longrightarrow>
             readBinary r = Inr (take (nat L) (drop (offset r') (buffer r)), r'\<lparr>offset := offset r' + nat L\<rparr>)
             \<and> int (length (take (nat L) (drop (offset r') (buffer r)))) = L"
      using eq L0 by auto
    have b: "int (length (buffer r)) < int (offset r') + L \<longrightarrow> readBinary r = Inl BufferUnderflowBinary"
      using eq by simp
    have c: "sint (word_of_int L :: 64 word) < 0 \<longrightarrow> readBinary r = Inl BufferUnderflowBinary"
    proof
      assume "sint (word_of_int L :: 64 word) < 0"
      from sint64_nonneg [OF L0 this] szi have "int (length (buffer r)) < int (offset r') + L" by simp
      with b show "readBinary r = Inl BufferUnderflowBinary" by simp
    qed
    have d: "sint (word_of_int L :: 32 word) < 0 \<and> length (buffer r) < 2 ^ 31 \<longrightarrow>
             readBinary r = Inl BufferUnderflowBinary"
    proof
      assume h: "sint (word_of_int L :: 32 word) < 0 \<and> length (buffer r) < 2 ^ 31"
      then have "int (length (buffer r)) < 2 ^ 31"
        by (metis of_nat_less_iff of_nat_numeral of_nat_power)
      moreover from sint32_nonneg [OF L0] h have "2 ^ 31 \<le> L" by simp
      ultimately have "int (length (buffer r)) < int (offset r') + L" by simp
      with b show "readBinary r = Inl BufferUnderflowBinary" by simp
    qed
    from a b c d show "(int (offset r') + L \<le> int (length (buffer r)) \<longrightarrow>
             readBinary r = Inr (take (nat L) (drop (offset r') (buffer r)), r'\<lparr>offset := offset r' + nat L\<rparr>)
             \<and> int (length (take (nat L) (drop (offset r') (buffer r)))) = L)
        \<and> (int (length (buffer r)) < int (offset r') + L \<longrightarrow> readBinary r = Inl BufferUnderflowBinary)
        \<and> (sint (word_of_int L :: 64 word) < 0 \<longrightarrow> readBinary r = Inl BufferUnderflowBinary)
        \<and> (sint (word_of_int L :: 32 word) < 0 \<and> length (buffer r) < 2 ^ 31 \<longrightarrow>
             readBinary r = Inl BufferUnderflowBinary)" by blast
  qed
  from 1 2 3 show ?thesis by blast
qed

theorem readBinary_length_prefixed_witness:
  "length (buffer (newReader [0x02, 0xAA, 0xBB, 0xCC])) < 2 ^ 53
   \<and> readBinary (newReader [0x02, 0xAA, 0xBB, 0xCC])
       = Inr ([0xAA, 0xBB], newReader [0x02, 0xAA, 0xBB, 0xCC]\<lparr>offset := 3\<rparr>)
   \<and> readBinary (newReader [0x05, 0x01, 0x02]) = Inl BufferUnderflowBinary"
  using readBinary_length_prefixed [of "newReader [0x02, 0xAA, 0xBB, 0xCC]"]
    readBinary_length_prefixed [of "newReader [0x05, 0x01, 0x02]"]
  by (simp add: readVarint_def newReader_def readVarint_loop.simps)

subsection \<open>Field headers\<close>

lemmas tag_defs = Type_STOP_def Type_BOOL_def Type_BYTE_def Type_I16_def Type_I32_def Type_I64_def
  Type_DOUBLE_def Type_STRING_def Type_LIST_def Type_SET_def Type_MAP_def Type_STRUCT_def
  COMPACT_STOP_def COMPACT_BOOL_TRUE_def COMPACT_BOOL_FALSE_def COMPACT_BYTE_def COMPACT_I16_def
  COMPACT_I32_def COMPACT_I64_def COMPACT_DOUBLE_def COMPACT_BINARY_def COMPACT_LIST_def
  COMPACT_SET_def COMPACT_MAP_def COMPACT_STRUCT_def

lemma low_nibble_bound: "unat ((b :: byte) AND 0x0f) < 16"
proof -
  have "unat (b AND 0x0f) \<le> unat (0x0f :: byte)"
    by (rule word_and_le1 [THEN word_le_nat_alt [THEN iffD1]])
  then show ?thesis by simp
qed

lemma list_update_last: "xs \<noteq> [] \<Longrightarrow> xs[length xs - Suc 0 := v] = butlast xs @ [v]"
  by (induction xs rule: rev_induct) auto


text \<open>
  Claim C6. \<open>readFieldBegin\<close> reads one byte (and fails on an exhausted buffer). A zero byte
  is Stop. Otherwise the low nibble is the compact type tag, returned as its Thrift type,
  and the high nibble is the field-id delta: a nonzero delta is added to the last field id
  of the current struct (the top of \<open>lastFieldId\<close>), which becomes the new last field id;
  a zero delta reads the field id as a zig-zag varint. A boolean-true or boolean-false tag
  stores the boolean, and the next \<open>readBool\<close> returns it and clears it without moving the
  cursor. The byte \<open>0x15\<close> after field id 3 gives field id 4 of type int32.
\<close>

theorem readFieldBegin_header:
  "(length (buffer r) \<le> offset r \<longrightarrow> readFieldBegin r = Inl BufferUnderflow)
   \<and> (offset r < length (buffer r) \<longrightarrow>
       (let b = buffer r ! offset r;
            r1 = r\<lparr>offset := offset r + 1\<rparr>;
            delta = unat (drop_bit 4 b AND 0x0f);
            compactType = unat (b AND 0x0f);
            pending = (\<lambda>r'. if compactType = COMPACT_BOOL_TRUE then r'\<lparr>boolValue := Some True\<rparr>
                            else if compactType = COMPACT_BOOL_FALSE then r'\<lparr>boolValue := Some False\<rparr>
                            else r')
        in delta < 16 \<and> compactType < 16
         \<and> (b = 0 \<longrightarrow> readFieldBegin r = Inr (\<lparr>ftype = Type_STOP, fid = Fin 0\<rparr>, r1))
         \<and> (b \<noteq> 0 \<and> delta \<noteq> 0 \<and> lastFieldId r \<noteq> [] \<longrightarrow>
              readFieldBegin r =
                Inr (\<lparr>ftype = compactTypeToThriftType compactType,
                      fid = jsAdd (last (lastFieldId r)) (Fin (int delta))\<rparr>,
                     pending (r1\<lparr>lastFieldId :=
                       butlast (lastFieldId r) @ [jsAdd (last (lastFieldId r)) (Fin (int delta))]\<rparr>)))
         \<and> (\<forall>k. b \<noteq> 0 \<and> delta \<noteq> 0 \<and> lastFieldId r \<noteq> [] \<and> last (lastFieldId r) = Fin k
                \<and> \<bar>k + int delta\<bar> \<le> 2 ^ 53 \<longrightarrow>
              map_sum id (\<lambda>(f, r'). fid f) (readFieldBegin r) = Inr (Fin (k + int delta)))
         \<and> (b \<noteq> 0 \<and> delta = 0 \<longrightarrow>
              readFieldBegin r =
                (case readZigZag r1 of
                   Inl e \<Rightarrow> Inl e
                 | Inr (v, r2) \<Rightarrow>
                     Inr (\<lparr>ftype = compactTypeToThriftType compactType, fid = Number v\<rparr>,
                          pending (setTopFieldId (Number v) r2))))
         \<and> (\<forall>f r'. readFieldBegin r = Inr (f, r') \<and> b \<noteq> 0
                \<and> (compactType = COMPACT_BOOL_TRUE \<or> compactType = COMPACT_BOOL_FALSE) \<longrightarrow>
              ftype f = Type_BOOL
              \<and> readBool r' = Inr (compactType = COMPACT_BOOL_TRUE, r'\<lparr>boolValue := None\<rparr>))))
   \<and> readFieldBegin \<lparr>buffer = [0x15], offset = 0, lastFieldId = [Fin 0, Fin 3],
                      lastFieldIdM1 = None, boolValue = None\<rparr>
       = Inr (\<lparr>ftype = Type_I32, fid = Fin 4\<rparr>,
              \<lparr>buffer = [0x15], offset = 1, lastFieldId = [Fin 0, Fin 4],
               lastFieldIdM1 = None, boolValue = None\<rparr>)"
proof -
  have A: "length (buffer r) \<le> offset r \<longrightarrow> readFieldBegin r = Inl BufferUnderflow"
    by (simp add: readFieldBegin_def readByte_def)
  have C: "readFieldBegin \<lparr>buffer = [0x15], offset = 0, lastFieldId = [Fin 0, Fin 3],
                      lastFieldIdM1 = None, boolValue = None\<rparr>
       = Inr (\<lparr>ftype = Type_I32, fid = Fin 4\<rparr>,
              \<lparr>buffer = [0x15], offset = 1, lastFieldId = [Fin 0, Fin 4],
               lastFieldIdM1 = None, boolValue = None\<rparr>)"
    by (simp add: readFieldBegin_def readByte_def Let_def plusDelta_def topFieldId_def
        setTopFieldId_def compactTypeToThriftType_def tag_defs roundDouble_def)
  have B: "offset r < length (buffer r) \<longrightarrow>
       (let b = buffer r ! offset r;
            r1 = r\<lparr>offset := offset r + 1\<rparr>;
            delta = unat (drop_bit 4 b AND 0x0f);
            compactType = unat (b AND 0x0f);
            pending = (\<lambda>r'. if compactType = COMPACT_BOOL_TRUE then r'\<lparr>boolValue := Some True\<rparr>
                            else if compactType = COMPACT_BOOL_FALSE then r'\<lparr>boolValue := Some False\<rparr>
                            else r')
        in delta < 16 \<and> compactType < 16
         \<and> (b = 0 \<longrightarrow> readFieldBegin r = Inr (\<lparr>ftype = Type_STOP, fid = Fin 0\<rparr>, r1))
         \<and> (b \<noteq> 0 \<and> delta \<noteq> 0 \<and> lastFieldId r \<noteq> [] \<longrightarrow>
              readFieldBegin r =
                Inr (\<lparr>ftype = compactTypeToThriftType compactType,
                      fid = jsAdd (last (lastFieldId r)) (Fin (int delta))\<rparr>,
                     pending (r1\<lparr>lastFieldId :=
                       butlast (lastFieldId r) @ [jsAdd (last (lastFieldId r)) (Fin (int delta))]\<rparr>)))
         \<and> (\<forall>k. b \<noteq> 0 \<and> delta \<noteq> 0 \<and> lastFieldId r \<noteq> [] \<and> last (lastFieldId r) = Fin k
                \<and> \<bar>k + int delta\<bar> \<le> 2 ^ 53 \<longrightarrow>
              map_sum id (\<lambda>(f, r'). fid f) (readFieldBegin r) = Inr (Fin (k + int delta)))
         \<and> (b \<noteq> 0 \<and> delta = 0 \<longrightarrow>
              readFieldBegin r =
                (case readZigZag r1 of
                   Inl e \<Rightarrow> Inl e
                 | Inr (v, r2) \<Rightarrow>
                     Inr (\<lparr>ftype = compactTypeToThriftType compactType, fid = Number v\<rparr>,
                          pending (setTopFieldId (Number v) r2))))
         \<and> (\<forall>f r'. readFieldBegin r = Inr (f, r') \<and> b \<noteq> 0
                \<and> (compactType = COMPACT_BOOL_TRUE \<or> compactType = COMPACT_BOOL_FALSE) \<longrightarrow>
              ftype f = Type_BOOL
              \<and> readBool r' = Inr (compactType = COMPACT_BOOL_TRUE, r'\<lparr>boolValue := None\<rparr>)))"
  proof
    assume lt: "offset r < length (buffer r)"
    define b where "b = buffer r ! offset r"
    define r1 where "r1 = r\<lparr>offset := offset r + 1\<rparr>"
    define delta where "delta = unat (drop_bit 4 b AND 0x0f)"
    define ct where "ct = unat (b AND 0x0f)"
    define pending where "pending = (\<lambda>r'::reader. if ct = COMPACT_BOOL_TRUE then r'\<lparr>boolValue := Some True\<rparr>
                            else if ct = COMPACT_BOOL_FALSE then r'\<lparr>boolValue := Some False\<rparr>
                            else r')"
    have rb: "readByte r = Inr (b, r1)" using lt by (simp add: readByte_def b_def r1_def)
    have bounds: "delta < 16 \<and> ct < 16"
      using low_nibble_bound [of b] low_nibble_bound [of "drop_bit 4 b"] by (simp add: delta_def ct_def)
    have s0: "b = 0 \<longrightarrow> readFieldBegin r = Inr (\<lparr>ftype = Type_STOP, fid = Fin 0\<rparr>, r1)"
      by (simp add: readFieldBegin_def rb)
    have s1: "b \<noteq> 0 \<and> delta \<noteq> 0 \<and> lastFieldId r \<noteq> [] \<longrightarrow>
              readFieldBegin r =
                Inr (\<lparr>ftype = compactTypeToThriftType ct,
                      fid = jsAdd (last (lastFieldId r)) (Fin (int delta))\<rparr>,
                     pending (r1\<lparr>lastFieldId :=
                       butlast (lastFieldId r) @ [jsAdd (last (lastFieldId r)) (Fin (int delta))]\<rparr>))"
      by (simp add: readFieldBegin_def rb Let_def delta_def [symmetric] ct_def [symmetric]
          plusDelta_def topFieldId_def setTopFieldId_def r1_def pending_def list_update_last)
    have s2: "\<forall>k. b \<noteq> 0 \<and> delta \<noteq> 0 \<and> lastFieldId r \<noteq> [] \<and> last (lastFieldId r) = Fin k
                \<and> \<bar>k + int delta\<bar> \<le> 2 ^ 53 \<longrightarrow>
              map_sum id (\<lambda>(f, r'). fid f) (readFieldBegin r) = Inr (Fin (k + int delta))"
      using s1 by (auto simp: roundDouble_small)
    have s3: "b \<noteq> 0 \<and> delta = 0 \<longrightarrow>
              readFieldBegin r =
                (case readZigZag r1 of
                   Inl e \<Rightarrow> Inl e
                 | Inr (v, r2) \<Rightarrow>
                     Inr (\<lparr>ftype = compactTypeToThriftType ct, fid = Number v\<rparr>,
                          pending (setTopFieldId (Number v) r2)))"
      by (auto simp: readFieldBegin_def rb Let_def delta_def [symmetric] ct_def [symmetric]
          pending_def split: sum.splits)
    have s4: "\<forall>f r'. readFieldBegin r = Inr (f, r') \<and> b \<noteq> 0
                \<and> (ct = COMPACT_BOOL_TRUE \<or> ct = COMPACT_BOOL_FALSE) \<longrightarrow>
              ftype f = Type_BOOL
              \<and> readBool r' = Inr (ct = COMPACT_BOOL_TRUE, r'\<lparr>boolValue := None\<rparr>)"
      by (auto simp: readFieldBegin_def rb Let_def delta_def [symmetric] ct_def [symmetric]
          readBool_def compactTypeToThriftType_def tag_defs split: sum.splits if_splits)
    from bounds s0 s1 [unfolded pending_def] s2 s3 [unfolded pending_def] s4 show "(let b = buffer r ! offset r;
            r1 = r\<lparr>offset := offset r + 1\<rparr>;
            delta = unat (drop_bit 4 b AND 0x0f);
            compactType = unat (b AND 0x0f);
            pending = (\<lambda>r'. if compactType = COMPACT_BOOL_TRUE then r'\<lparr>boolValue := Some True\<rparr>
                            else if compactType = COMPACT_BOOL_FALSE then r'\<lparr>boolValue := Some False\<rparr>
                            else r')
        in delta < 16 \<and> compactType < 16
         \<and> (b = 0 \<longrightarrow> readFieldBegin r = Inr (\<lparr>ftype = Type_STOP, fid = Fin 0\<rparr>, r1))
         \<and> (b \<noteq> 0 \<and> delta \<noteq> 0 \<and> lastFieldId r \<noteq> [] \<longrightarrow>
              readFieldBegin r =
                Inr (\<lparr>ftype = compactTypeToThriftType compactType,
                      fid = jsAdd (last (lastFieldId r)) (Fin (int delta))\<rparr>,
                     pending (r1\<lparr>lastFieldId :=
                       butlast (lastFieldId r) @ [jsAdd (last (lastFieldId r)) (Fin (int delta))]\<rparr>)))
         \<and> (\<forall>k. b \<noteq> 0 \<and> delta \<noteq> 0 \<and> lastFieldId r \<noteq> [] \<and> last (lastFieldId r) = Fin k
                \<and> \<bar>k + int delta\<bar> \<le> 2 ^ 53 \<longrightarrow>
              map_sum id (\<lambda>(f, r'). fid f) (readFieldBegin r) = Inr (Fin (k + int delta)))
         \<and> (b \<noteq> 0 \<and> delta = 0 \<longrightarrow>
              readFieldBegin r =
                (case readZigZag r1 of
                   Inl e \<Rightarrow> Inl e
                 | Inr (v, r2) \<Rightarrow>
                     Inr (\<lparr>ftype = compactTypeToThriftType compactType, fid = Number v\<rparr>,
                          pending (setTopFieldId (Number v) r2))))
         \<and> (\<forall>f r'. readFieldBegin r = Inr (f, r') \<and> b \<noteq> 0
                \<and> (compactType = COMPACT_BOOL_TRUE \<or> compactType = COMPACT_BOOL_FALSE) \<longrightarrow>
              ftype f = Type_BOOL
              \<and> readBool r' = Inr (compactType = COMPACT_BOOL_TRUE, r'\<lparr>boolValue := None\<rparr>)))"
      unfolding Let_def b_def [symmetric] r1_def [symmetric] delta_def [symmetric] ct_def [symmetric]
      by blast
  qed
  from A B C show ?thesis by blast
qed

theorem readFieldBegin_header_witness:
  "readFieldBegin (newReader [0x11])
     = Inr (\<lparr>ftype = Type_BOOL, fid = Fin 1\<rparr>,
            \<lparr>buffer = [0x11], offset = 1, lastFieldId = [Fin 1], lastFieldIdM1 = None,
             boolValue = Some True\<rparr>)
   \<and> readBool \<lparr>buffer = [0x11], offset = 1, lastFieldId = [Fin 1], lastFieldIdM1 = None,
               boolValue = Some True\<rparr>
     = Inr (True, \<lparr>buffer = [0x11], offset = 1, lastFieldId = [Fin 1], lastFieldIdM1 = None,
                   boolValue = None\<rparr>)"
  using readFieldBegin_header [of "newReader [0x11]"]
  by (simp add: newReader_def Let_def tag_defs compactTypeToThriftType_def roundDouble_def)

section \<open>Properties of the entry points\<close>

lemma bytesEqual_loop_eq: "length a = length b \<Longrightarrow> bytesEqual_loop a b = (a = b)"
  by (induction a b rule: bytesEqual_loop.induct) auto

lemma bytesEqual_iff: "bytesEqual a b = (a = b)"
  using bytesEqual_loop_eq [of a b] by (auto simp: bytesEqual_def)

lemma getUint32_at:
  assumes "k + 4 \<le> length bs"
  shows "getUint32 (take 4 (drop k bs)) =
           Inr (unat (bs ! k) + 256 * unat (bs ! (k + 1)) + 65536 * unat (bs ! (k + 2))
                + 16777216 * unat (bs ! (k + 3)))"
  using assms by (simp add: getUint32_def add.commute)

lemma io_simps:
  "bindIO (returnIO x) f seen = f x seen"
  "bindIO (throwIO e) f seen = (seen, Inl e)"
  "throwIO e seen = (seen, Inl e)"
  "returnIO x seen = (seen, Inr x)"
  by (simp_all add: bindIO_def returnIO_def throwIO_def)

lemma bind_read:
  "bindIO (readFileSlice file s e) f seen =
     (if unreadable file s e then (seen @ [(s, e)], Inl (ReadFailed s e))
      else f (jsSlice (contents file) s e) (seen @ [(s, e)]))"
  by (simp add: bindIO_def readFileSlice_def)

lemma jsSlice_in_range':
  "s \<le> e \<Longrightarrow> e \<le> length xs \<Longrightarrow> jsSlice xs (int s) (int e) = take (e - s) (drop s xs)"
  using jsSlice_in_range [of "int s" "int e" xs] by (simp add: nat_diff_distrib')

lemma footer_range:
  assumes "L \<le> length bytes - 8" "12 \<le> length bytes"
  shows "int (length bytes) - 8 - int L = int (length bytes - 8 - L)"
    and "jsSlice bytes (int (length bytes) - 8 - int L) (int (length bytes) - 8 - int L + int L)
           = take L (drop (length bytes - 8 - L) bytes)"
proof -
  let ?F = "length bytes"
  show st: "int ?F - 8 - int L = int (?F - 8 - L)"
    using assms by (simp add: of_nat_diff)
  have "jsSlice bytes (int (?F - 8 - L)) (int (?F - 8)) = take (?F - 8 - (?F - 8 - L)) (drop (?F - 8 - L) bytes)"
    by (rule jsSlice_in_range') auto
  moreover have "?F - 8 - (?F - 8 - L) = L" using assms by simp
  moreover have "int (?F - 8) = int ?F - 8 - int L + int L"
    using assms by (auto simp: of_nat_diff)
  ultimately show "jsSlice bytes (int ?F - 8 - int L) (int ?F - 8 - int L + int L)
           = take L (drop (?F - 8 - L) bytes)"
    using st by metis
qed

lemma footer_words:
  assumes "12 \<le> length bytes"
  shows "jsSlice bytes 0 4 = take 4 bytes"
    and "jsSlice bytes (int (length bytes) - 4) (int (length bytes)) = drop (length bytes - 4) bytes"
    and "jsSlice bytes (int (length bytes) - 8) (int (length bytes)) = drop (length bytes - 8) bytes"
    and "getUint32 (jsSlice bytes (int (length bytes) - 8) (int (length bytes) - 4)) =
           Inr (unat (bytes ! (length bytes - 8)) + 256 * unat (bytes ! (length bytes - 7))
                + 65536 * unat (bytes ! (length bytes - 6)) + 16777216 * unat (bytes ! (length bytes - 5)))"
    and "getUint32 (take 4 (drop (length bytes - 8) bytes)) =
           Inr (unat (bytes ! (length bytes - 8)) + 256 * unat (bytes ! (length bytes - 7))
                + 65536 * unat (bytes ! (length bytes - 6)) + 16777216 * unat (bytes ! (length bytes - 5)))"
    and "jsSlice (drop (length bytes - 8) bytes) 4 8 = drop (length bytes - 4) bytes"
proof -
  let ?F = "length bytes"
  show "jsSlice bytes 0 4 = take 4 bytes"
    using jsSlice_in_range' [of 0 4 bytes] assms by simp
  show "jsSlice bytes (int ?F - 4) (int ?F) = drop (?F - 4) bytes"
    using jsSlice_in_range' [of "?F - 4" ?F bytes] assms by (simp add: of_nat_diff)
  show "jsSlice bytes (int ?F - 8) (int ?F) = drop (?F - 8) bytes"
    using jsSlice_in_range' [of "?F - 8" ?F bytes] assms by (simp add: of_nat_diff)
  have s3: "jsSlice bytes (int ?F - 8) (int ?F - 4) = take 4 (drop (?F - 8) bytes)"
    using jsSlice_in_range' [of "?F - 8" "?F - 4" bytes] assms by (simp add: of_nat_diff)
  have idx: "?F - 8 + 1 = ?F - 7" "?F - 8 + 2 = ?F - 6" "?F - 8 + 3 = ?F - 5" "?F - 8 + 4 \<le> ?F"
    using assms by auto
  show g: "getUint32 (take 4 (drop (?F - 8) bytes)) =
           Inr (unat (bytes ! (?F - 8)) + 256 * unat (bytes ! (?F - 7))
                + 65536 * unat (bytes ! (?F - 6)) + 16777216 * unat (bytes ! (?F - 5)))"
    using getUint32_at [OF idx(4)] by (simp only: idx)
  then show "getUint32 (jsSlice bytes (int ?F - 8) (int ?F - 4)) =
           Inr (unat (bytes ! (?F - 8)) + 256 * unat (bytes ! (?F - 7))
                + 65536 * unat (bytes ! (?F - 6)) + 16777216 * unat (bytes ! (?F - 5)))"
    by (simp only: s3)
  have "jsSlice (drop (?F - 8) bytes) 4 8 = take (8 - 4) (drop 4 (drop (?F - 8) bytes))"
    using jsSlice_in_range' [of 4 8 "drop (?F - 8) bytes"] assms by simp
  also have "\<dots> = drop (?F - 4) bytes" using assms by (simp add: add.commute)
  finally show "jsSlice (drop (?F - 8) bytes) 4 8 = drop (?F - 4) bytes" .
qed

text \<open>The checks of the legacy entry point, on a buffer of at least twelve bytes.\<close>

lemma parseParquetFile_checks:
  assumes "12 \<le> length bytes"
  defines "F \<equiv> length bytes"
  defines "L \<equiv> unat (bytes ! (F - 8)) + 256 * unat (bytes ! (F - 7)) + 65536 * unat (bytes ! (F - 6))
                + 16777216 * unat (bytes ! (F - 5))"
  shows "parseParquetFile dfm dci doi bytes =
     (if take 4 bytes \<noteq> PARQUET_MAGIC then Inl MissingHeaderMagic
      else if drop (F - 4) bytes \<noteq> PARQUET_MAGIC then Inl MissingFooterMagic
      else if F - 8 < L then Inl (InvalidFooterLength L)
      else (case dfm (take L (drop (F - 8 - L) bytes)) of
              (md, Some e) \<Rightarrow> Inl e
            | (md, None) \<Rightarrow>
                Inr \<lparr>fileSize = F, footerLength = L, footerStart = int F - 8 - int L,
                     fileMetaData = md, pageIndexes = parsePageIndexes dci doi bytes md\<rparr>))"
proof -
  note w0 = footer_words [OF assms(1)]
  have w: "jsSlice bytes 0 4 = take 4 bytes"
    "jsSlice bytes (int F - 4) (int F) = drop (F - 4) bytes"
    "getUint32 (jsSlice bytes (int F - 8) (int F - 4)) = Inr L"
    unfolding L_def F_def using w0 by simp_all
  have F12: "12 \<le> F" "\<not> F < 12" using assms by simp_all
  have cmp: "(int F - 8 < int L) = (F - 8 < L)" using F12 by linarith
  have e2: "int F - 8 - int L + int L = int F - 8" by simp
  have body: "parseParquetFile dfm dci doi bytes =
      (if \<not> bytesEqual (jsSlice bytes 0 4) PARQUET_MAGIC then Inl MissingHeaderMagic
      else if \<not> bytesEqual (jsSlice bytes (int F - 4) (int F)) PARQUET_MAGIC
        then Inl MissingFooterMagic
      else
        (case getUint32 (jsSlice bytes (int F - 8) (int F - 4)) of
           Inl e \<Rightarrow> Inl e
         | Inr len \<Rightarrow>
             if int F - 8 < int len then Inl (InvalidFooterLength len)
             else
               (case dfm (jsSlice bytes (int F - 8 - int len) (int F - 8 - int len + int len)) of
                     (md, Some e) \<Rightarrow> Inl e
                   | (md, None) \<Rightarrow>
                       Inr \<lparr>fileSize = F, footerLength = len, footerStart = int F - 8 - int len,
                            fileMetaData = md,
                            pageIndexes = parsePageIndexes dci doi bytes md\<rparr>)))"
    unfolding parseParquetFile_def Let_def F_def [symmetric] using F12 by simp
  show ?thesis
  proof (cases "F - 8 < L")
    case True
    then show ?thesis
      unfolding body w bytesEqual_iff by (simp add: cmp)
  next
    case False
    then have le: "L \<le> length bytes - 8" by (simp add: F_def)
    note r = footer_range [OF le assms(1), folded F_def]
    have r3: "jsSlice bytes (int F - 8 - int L) (int F - 8) = take L (drop (F - 8 - L) bytes)"
      using r(2) unfolding e2 .
    from False show ?thesis
      unfolding body w bytesEqual_iff sum.case e2 r3 by (simp add: cmp)
  qed
qed

text \<open>The checks of the streaming entry point, with the reads it issues.\<close>

lemma parseParquetFileStreaming_checks:
  assumes "12 \<le> length bytes" and c: "contents file = bytes"
  defines "F \<equiv> length bytes"
  defines "L \<equiv> unat (bytes ! (F - 8)) + 256 * unat (bytes ! (F - 7))
                + 65536 * unat (bytes ! (F - 6)) + 16777216 * unat (bytes ! (F - 5))"
  defines "reads \<equiv> [(0, 4), (int F - 8, int F), (int F - 8 - int L, int F - 8)]"
  shows "parseParquetFileStreaming dfm dci doi file seen =
     (if unreadable file 0 4 then (seen @ [(0, 4)], Inl (ReadFailed 0 4))
      else if take 4 bytes \<noteq> PARQUET_MAGIC then (seen @ [(0, 4)], Inl MissingHeaderMagic)
      else if unreadable file (int F - 8) (int F)
        then (seen @ [(0, 4), (int F - 8, int F)], Inl (ReadFailed (int F - 8) (int F)))
      else if drop (F - 4) bytes \<noteq> PARQUET_MAGIC
        then (seen @ [(0, 4), (int F - 8, int F)], Inl MissingFooterMagic)
      else if F - 8 < L then (seen @ [(0, 4), (int F - 8, int F)], Inl (InvalidFooterLength L))
      else if unreadable file (int F - 8 - int L) (int F - 8)
        then (seen @ reads, Inl (ReadFailed (int F - 8 - int L) (int F - 8)))
      else (case dfm (take L (drop (F - 8 - L) bytes)) of
              (md, Some e) \<Rightarrow> (seen @ reads, Inl e)
            | (md, None) \<Rightarrow>
                (case parsePageIndexesStreaming dci doi file md (seen @ reads) of
                   (seen', Inl e) \<Rightarrow> (seen', Inl e)
                 | (seen', Inr indexes) \<Rightarrow>
                     (seen', Inr \<lparr>fileSize = F, footerLength = L, footerStart = int F - 8 - int L,
                                   fileMetaData = md, pageIndexes = indexes\<rparr>))))"
proof -
  note w0 = footer_words [OF assms(1)]
  have w: "jsSlice bytes 0 4 = take 4 bytes"
    "jsSlice bytes (int F - 8) (int F) = drop (F - 8) bytes"
    "getUint32 (take 4 (drop (F - 8) bytes)) = Inr L"
    "jsSlice (drop (F - 8) bytes) 4 8 = drop (F - 4) bytes"
    unfolding L_def F_def using w0 by simp_all
  have F12: "12 \<le> F" "\<not> F < 12" using assms by simp_all
  have cmp: "(int F - 8 < int L) = (F - 8 < L)" using F12 by linarith
  have body: "parseParquetFileStreaming dfm dci doi file seen =
      bindIO (readFileSlice file 0 4) (\<lambda>headerMagic.
          if \<not> bytesEqual headerMagic PARQUET_MAGIC then throwIO MissingHeaderMagic
          else
            bindIO (readFileSlice file (int F - 8) (int F)) (\<lambda>footerEnd.
              if \<not> bytesEqual (jsSlice footerEnd 4 8) PARQUET_MAGIC then throwIO MissingFooterMagic
              else
                (case getUint32 (take 4 footerEnd) of
                   Inl e \<Rightarrow> throwIO e
                 | Inr len \<Rightarrow>
                     if int F - 8 < int len then throwIO (InvalidFooterLength len)
                     else
                       bindIO (readFileSlice file (int F - 8 - int len) (int F - 8 - int len + int len)) (\<lambda>footerBytes.
                         (case dfm footerBytes of
                            (md, Some e) \<Rightarrow> throwIO e
                          | (md, None) \<Rightarrow>
                              bindIO (parsePageIndexesStreaming dci doi file md)
                                (\<lambda>indexes.
                                   returnIO \<lparr>fileSize = F, footerLength = len, footerStart = int F - 8 - int len,
                                             fileMetaData = md, pageIndexes = indexes\<rparr>)))))) seen"
    unfolding parseParquetFileStreaming_def Let_def c F_def [symmetric] using F12 by simp
  have e2: "int F - 8 - int L + int L = int F - 8" by simp
  show ?thesis
  proof (cases "F - 8 < L")
    case True
    then show ?thesis
      unfolding body bind_read c w bytesEqual_iff
      by (simp add: cmp io_simps)
  next
    case False
    then have le: "L \<le> length bytes - 8" by (simp add: F_def)
    note r = footer_range [OF le assms(1), folded F_def]
    have r3: "jsSlice bytes (int F - 8 - int L) (int F - 8) = take L (drop (F - 8 - L) bytes)"
      using r(2) unfolding e2 .
    have tail: "\<And>md. bindIO (parsePageIndexesStreaming dci doi file md)
                (\<lambda>indexes. returnIO \<lparr>fileSize = F, footerLength = L, footerStart = int F - 8 - int L,
                                        fileMetaData = md, pageIndexes = indexes\<rparr>) (seen @ reads)
          = (case parsePageIndexesStreaming dci doi file md (seen @ reads) of
                   (seen', Inl e) \<Rightarrow> (seen', Inl e)
                 | (seen', Inr indexes) \<Rightarrow>
                     (seen', Inr \<lparr>fileSize = F, footerLength = L, footerStart = int F - 8 - int L,
                                   fileMetaData = md, pageIndexes = indexes\<rparr>))"
      by (simp add: bindIO_def returnIO_def split: prod.splits sum.splits)
    have app: "seen @ [(0, 4)] @ [(int F - 8, int F)] @ [(int F - 8 - int L, int F - 8)] = seen @ reads"
      by (simp add: reads_def)
    from False show ?thesis
      unfolding body bind_read c w bytesEqual_iff sum.case e2 r3
      by (simp add: cmp io_simps tail [unfolded reads_def] reads_def split: prod.splits option.splits)
  qed
qed


lemma take_drop_nth: "k + n \<le> length xs \<Longrightarrow> take n (drop k xs) = map ((!) xs) [k..<k + n]"
  by (simp add: list_eq_iff_nth_eq)

text \<open>
  Claim C1. On a byte source of \<open>F \<ge> 12\<close> bytes, let \<open>L\<close> be the little-endian unsigned
  32-bit number at bytes \<open>[F-8, F-4)\<close>. If the first four and the last four bytes are the
  marker \<open>PAR1\<close> and \<open>L \<le> F-8\<close>, both entry points hand the \<open>read\<close> method of \<open>FileMetaData\<close>
  exactly the bytes \<open>[F-8-L, F-8)\<close>, and go on with what it decoded (or fail with its
  error); the streaming one reads the three ranges \<open>[0,4)\<close>, \<open>[F-8,F)\<close> and \<open>[F-8-L,F-8)\<close>
  for it. Otherwise both fail with an \<open>InvalidFormat\<close> error and produce no result. For
  the streaming entry point the reads of the file succeed.
\<close>

theorem footer_location:
  assumes "12 \<le> length bytes"
  shows
    "let F = length bytes;
         L = unat (bytes ! (F - 8)) + 256 * unat (bytes ! (F - 7)) + 65536 * unat (bytes ! (F - 6))
               + 16777216 * unat (bytes ! (F - 5));
         ok = (take 4 bytes = PARQUET_MAGIC \<and> drop (F - 4) bytes = PARQUET_MAGIC \<and> L \<le> F - 8);
         footer = map ((!) bytes) [F - 8 - L..<F - 8];
         reads = [(0, 4), (int F - 8, int F), (int F - 8 - int L, int F - 8)]
     in (ok \<longrightarrow>
           parseParquetFile dfm dci doi bytes =
             (case dfm footer of
                (md, Some e) \<Rightarrow> Inl e
              | (md, None) \<Rightarrow>
                  Inr \<lparr>fileSize = F, footerLength = L, footerStart = int F - 8 - int L,
                       fileMetaData = md, pageIndexes = parsePageIndexes dci doi bytes md\<rparr>))
      \<and> (\<not> ok \<longrightarrow> (\<exists>e. parseParquetFile dfm dci doi bytes = Inl e \<and> InvalidFormat e))
      \<and> (\<forall>file seen. contents file = bytes \<and> (\<forall>s e. \<not> unreadable file s e) \<longrightarrow>
            (ok \<longrightarrow>
               parseParquetFileStreaming dfm dci doi file seen =
                 (case dfm footer of
                    (md, Some e) \<Rightarrow> (seen @ reads, Inl e)
                  | (md, None) \<Rightarrow>
                      (case parsePageIndexesStreaming dci doi file md (seen @ reads) of
                         (seen', Inl e) \<Rightarrow> (seen', Inl e)
                       | (seen', Inr indexes) \<Rightarrow>
                           (seen', Inr \<lparr>fileSize = F, footerLength = L, footerStart = int F - 8 - int L,
                                         fileMetaData = md, pageIndexes = indexes\<rparr>))))
          \<and> (\<not> ok \<longrightarrow>
               (\<exists>seen' e. parseParquetFileStreaming dfm dci doi file seen = (seen', Inl e)
                           \<and> InvalidFormat e)))"
proof -
  define F where "F = length bytes"
  define L where "L = unat (bytes ! (F - 8)) + 256 * unat (bytes ! (F - 7)) + 65536 * unat (bytes ! (F - 6))
               + 16777216 * unat (bytes ! (F - 5))"
  define ok where "ok = (take 4 bytes = PARQUET_MAGIC \<and> drop (F - 4) bytes = PARQUET_MAGIC \<and> L \<le> F - 8)"
  define footer where "footer = map ((!) bytes) [F - 8 - L..<F - 8]"
  define reads where "reads = [(0, 4), (int F - 8, int F), (int F - 8 - int L, int F - 8)]"
  note legacy = parseParquetFile_checks [OF assms, where dfm = dfm and dci = dci and doi = doi,
      folded F_def, folded L_def]
  have foot: "L \<le> F - 8 \<Longrightarrow> take L (drop (F - 8 - L) bytes) = footer"
    using take_drop_nth [of "F - 8 - L" L bytes] assms by (simp add: footer_def F_def)
  have a: "ok \<longrightarrow>
           parseParquetFile dfm dci doi bytes =
             (case dfm footer of
                (md, Some e) \<Rightarrow> Inl e
              | (md, None) \<Rightarrow>
                  Inr \<lparr>fileSize = F, footerLength = L, footerStart = int F - 8 - int L,
                       fileMetaData = md, pageIndexes = parsePageIndexes dci doi bytes md\<rparr>)"
    using legacy foot by (auto simp: ok_def)
  have b: "\<not> ok \<longrightarrow> (\<exists>e. parseParquetFile dfm dci doi bytes = Inl e \<and> InvalidFormat e)"
    using legacy by (auto simp: ok_def)
  have c: "\<forall>file seen. contents file = bytes \<and> (\<forall>s e. \<not> unreadable file s e) \<longrightarrow>
            (ok \<longrightarrow>
               parseParquetFileStreaming dfm dci doi file seen =
                 (case dfm footer of
                    (md, Some e) \<Rightarrow> (seen @ reads, Inl e)
                  | (md, None) \<Rightarrow>
                      (case parsePageIndexesStreaming dci doi file md (seen @ reads) of
                         (seen', Inl e) \<Rightarrow> (seen', Inl e)
                       | (seen', Inr indexes) \<Rightarrow>
                           (seen', Inr \<lparr>fileSize = F, footerLength = L, footerStart = int F - 8 - int L,
                                         fileMetaData = md, pageIndexes = indexes\<rparr>))))
          \<and> (\<not> ok \<longrightarrow>
               (\<exists>seen' e. parseParquetFileStreaming dfm dci doi file seen = (seen', Inl e)
                           \<and> InvalidFormat e))"
  proof (intro allI impI)
    fix f :: jsFile and seen
    assume h: "contents f = bytes \<and> (\<forall>s e. \<not> unreadable f s e)"
    then have cf: "contents f = bytes" by simp
    note st = parseParquetFileStreaming_checks [OF assms cf, where dfm = dfm and dci = dci and doi = doi
        and seen = seen, folded F_def, folded L_def, folded reads_def]
    show "(ok \<longrightarrow>
               parseParquetFileStreaming dfm dci doi f seen =
                 (case dfm footer of
                    (md, Some e) \<Rightarrow> (seen @ reads, Inl e)
                  | (md, None) \<Rightarrow>
                      (case parsePageIndexesStreaming dci doi f md (seen @ reads) of
                         (seen', Inl e) \<Rightarrow> (seen', Inl e)
                       | (seen', Inr indexes) \<Rightarrow>
                           (seen', Inr \<lparr>fileSize = F, footerLength = L, footerStart = int F - 8 - int L,
                                         fileMetaData = md, pageIndexes = indexes\<rparr>))))
          \<and> (\<not> ok \<longrightarrow>
               (\<exists>seen' e. parseParquetFileStreaming dfm dci doi f seen = (seen', Inl e)
                           \<and> InvalidFormat e))"
      using st h foot by (auto simp: ok_def)
  qed
  from a b c show ?thesis
    unfolding Let_def F_def [symmetric] L_def [symmetric] ok_def [symmetric] footer_def [symmetric]
      reads_def [symmetric] by blast
qed


theorem footer_location_witness:
  "12 \<le> length [0x50, 0x41, 0x52, 0x31, 0xAB, 1, 0, 0, 0, 0x50, 0x41, 0x52, 0x31 :: byte]
   \<and> parseParquetFile (\<lambda>bs. (\<lparr>row_groups = []\<rparr>, if bs = [0xAB] then None else Some BufferUnderflow))
         (\<lambda>bs. (bs, None)) (\<lambda>bs. (bs, None))
         [0x50, 0x41, 0x52, 0x31, 0xAB, 1, 0, 0, 0, 0x50, 0x41, 0x52, 0x31]
       = Inr \<lparr>fileSize = 13, footerLength = 1, footerStart = 4, fileMetaData = \<lparr>row_groups = []\<rparr>,
              pageIndexes = []\<rparr>"
  using footer_location [of "[0x50, 0x41, 0x52, 0x31, 0xAB, 1, 0, 0, 0, 0x50, 0x41, 0x52, 0x31]"
      "\<lambda>bs. (\<lparr>row_groups = []\<rparr>, if bs = [0xAB] then None else Some BufferUnderflow)"
      "\<lambda>bs. (bs, None)" "\<lambda>bs. (bs, None)"]
  by (simp add: Let_def PARQUET_MAGIC_def parsePageIndexes_def)

text \<open>
  Claim C10. On an input of fewer than 12 bytes both entry points fail with the error
  \<open>File too small\<close>, whatever the bytes are, and the streaming one has read nothing of the
  file by then. Twelve bytes are accepted: on the marker, a zero length and the marker,
  both go on to decode a footer of no bytes at \<open>[4, 4)\<close>.
\<close>

theorem file_too_small:
  "(length bytes < 12 \<longrightarrow> parseParquetFile dfm dci doi bytes = Inl FileTooSmall)
   \<and> (length (contents file) < 12 \<longrightarrow>
        parseParquetFileStreaming dfm dci doi file seen = (seen, Inl FileTooSmall))
   \<and> parseParquetFile dfm dci doi (PARQUET_MAGIC @ [0, 0, 0, 0] @ PARQUET_MAGIC) =
       (case dfm [] of
          (md, Some e) \<Rightarrow> Inl e
        | (md, None) \<Rightarrow>
            Inr \<lparr>fileSize = 12, footerLength = 0, footerStart = 4, fileMetaData = md,
                 pageIndexes = parsePageIndexes dci doi (PARQUET_MAGIC @ [0, 0, 0, 0] @ PARQUET_MAGIC) md\<rparr>)
   \<and> parseParquetFileStreaming dfm dci doi
         \<lparr>contents = PARQUET_MAGIC @ [0, 0, 0, 0] @ PARQUET_MAGIC, unreadable = (\<lambda>s e. False)\<rparr> [] =
       (case dfm [] of
          (md, Some e) \<Rightarrow> ([(0, 4), (4, 12), (4, 4)], Inl e)
        | (md, None) \<Rightarrow>
            (case parsePageIndexesStreaming dci doi
                    \<lparr>contents = PARQUET_MAGIC @ [0, 0, 0, 0] @ PARQUET_MAGIC, unreadable = (\<lambda>s e. False)\<rparr>
                    md [(0, 4), (4, 12), (4, 4)] of
               (seen', Inl e) \<Rightarrow> (seen', Inl e)
             | (seen', Inr indexes) \<Rightarrow>
                 (seen', Inr \<lparr>fileSize = 12, footerLength = 0, footerStart = 4,
                               fileMetaData = md, pageIndexes = indexes\<rparr>)))"
proof -
  let ?bytes = "PARQUET_MAGIC @ [0, 0, 0, 0] @ PARQUET_MAGIC"
  have a: "length bytes < 12 \<longrightarrow> parseParquetFile dfm dci doi bytes = Inl FileTooSmall"
    by (simp add: parseParquetFile_def)
  have b: "length (contents file) < 12 \<longrightarrow>
        parseParquetFileStreaming dfm dci doi file seen = (seen, Inl FileTooSmall)"
    by (simp add: parseParquetFileStreaming_def throwIO_def)
  have len: "12 \<le> length ?bytes" by (simp add: PARQUET_MAGIC_def)
  have c: "parseParquetFile dfm dci doi ?bytes =
       (case dfm [] of
          (md, Some e) \<Rightarrow> Inl e
        | (md, None) \<Rightarrow>
            Inr \<lparr>fileSize = 12, footerLength = 0, footerStart = 4, fileMetaData = md,
                 pageIndexes = parsePageIndexes dci doi ?bytes md\<rparr>)"
    by (subst parseParquetFile_checks [OF len])
       (simp add: PARQUET_MAGIC_def split: prod.splits option.splits)
  have d: "parseParquetFileStreaming dfm dci doi
         \<lparr>contents = ?bytes, unreadable = (\<lambda>s e. False)\<rparr> [] =
       (case dfm [] of
          (md, Some e) \<Rightarrow> ([(0, 4), (4, 12), (4, 4)], Inl e)
        | (md, None) \<Rightarrow>
            (case parsePageIndexesStreaming dci doi
                    \<lparr>contents = ?bytes, unreadable = (\<lambda>s e. False)\<rparr>
                    md [(0, 4), (4, 12), (4, 4)] of
               (seen', Inl e) \<Rightarrow> (seen', Inl e)
             | (seen', Inr indexes) \<Rightarrow>
                 (seen', Inr \<lparr>fileSize = 12, footerLength = 0, footerStart = 4,
                               fileMetaData = md, pageIndexes = indexes\<rparr>)))"
    by (subst parseParquetFileStreaming_checks [OF len])
       (simp_all add: PARQUET_MAGIC_def split: prod.splits option.splits sum.splits)
  from a b c d show ?thesis by blast
qed

theorem file_too_small_witness:
  "length [0x50, 0x41, 0x52, 0x31, 0x50, 0x41, 0x52, 0x31 :: byte] < 12
   \<and> parseParquetFile (\<lambda>bs. (\<lparr>row_groups = []\<rparr>, None)) (\<lambda>bs. (bs, None)) (\<lambda>bs. (bs, None))
        [0x50, 0x41, 0x52, 0x31, 0x50, 0x41, 0x52, 0x31] = Inl FileTooSmall
   \<and> parseParquetFileStreaming (\<lambda>bs. (\<lparr>row_groups = []\<rparr>, None)) (\<lambda>bs. (bs, None)) (\<lambda>bs. (bs, None))
        \<lparr>contents = [0x50, 0x41, 0x52, 0x31, 0x50, 0x41, 0x52, 0x31], unreadable = (\<lambda>s e. False)\<rparr> []
       = ([], Inl FileTooSmall)"
  using file_too_small [of "[0x50, 0x41, 0x52, 0x31, 0x50, 0x41, 0x52, 0x31]"
      "\<lambda>bs. (\<lparr>row_groups = []\<rparr>, None)" "\<lambda>bs. (bs, None)" "\<lambda>bs. (bs, None)"
      "\<lparr>contents = [0x50, 0x41, 0x52, 0x31, 0x50, 0x41, 0x52, 0x31], unreadable = (\<lambda>s e. False)\<rparr>" "[]"]
  by simp

section \<open>Properties of the batched reads\<close>

lemma exactBatches_openBatch: "exactBatches gap reqs = snd (exactLoop gap reqs None []) @ openBatch (fst (exactLoop gap reqs None []))"
  by (simp add: exactBatches_def openBatch_def split: prod.splits option.splits)

lemma greedy_new: "greedyBatch gap (exactBatch req)"
  by (simp add: greedyBatch_def exactBatch_def requestEnd_def)

lemma greedy_join:
  assumes "greedyBatch gap cur" "roffset req \<le> bend cur + gap"
  shows "greedyBatch gap (cur\<lparr>bend := max (bend cur) (roffset req + rlength req), requests := requests cur @ [req]\<rparr>)"
proof -
  from assms(1) have ne: "requests cur \<noteq> []"
    and st: "bstart cur = roffset (hd (requests cur))"
    and en: "bend cur = Max (requestEnd ` set (requests cur))"
    and gr: "\<forall>i. 0 < i \<and> i < length (requests cur) \<longrightarrow>
            roffset (requests cur ! i) \<le> Max (requestEnd ` set (take i (requests cur))) + gap"
    by (auto simp: greedyBatch_def)
  have m: "Max (requestEnd ` set (requests cur @ [req])) = max (bend cur) (roffset req + rlength req)"
    using ne by (simp add: en requestEnd_def max.commute)
  have g: "\<forall>i. 0 < i \<and> i < length (requests cur @ [req]) \<longrightarrow>
            roffset ((requests cur @ [req]) ! i) \<le> Max (requestEnd ` set (take i (requests cur @ [req]))) + gap"
  proof (intro allI impI)
    fix i assume i: "0 < i \<and> i < length (requests cur @ [req])"
    show "roffset ((requests cur @ [req]) ! i) \<le> Max (requestEnd ` set (take i (requests cur @ [req]))) + gap"
    proof (cases "i < length (requests cur)")
      case True
      with i gr show ?thesis by (simp add: nth_append)
    next
      case False
      with i have "i = length (requests cur)" by simp
      with assms(2) en show ?thesis by (simp add: nth_append)
    qed
  qed
  show ?thesis
    unfolding greedyBatch_def using ne st m g by (simp add: hd_append)
qed

lemma separated_snoc:
  assumes "separatedBatches gap (bs @ [b])" "bend b + gap < bstart b'"
  shows "separatedBatches gap ((bs @ [b]) @ [b'])"
  unfolding separatedBatches_def
proof (intro allI impI)
  fix j assume j: "Suc j < length ((bs @ [b]) @ [b'])"
  show "bend (((bs @ [b]) @ [b']) ! j) + gap < bstart (((bs @ [b]) @ [b']) ! Suc j)"
  proof (cases "Suc j < length (bs @ [b])")
    case True
    with assms(1) show ?thesis
      by (simp add: separatedBatches_def nth_append del: append_assoc)
  next
    case False
    with j have "j = length bs" by simp
    with assms(2) show ?thesis by (simp add: nth_append)
  qed
qed

lemma separated_last_update:
  assumes "separatedBatches gap (bs @ [b])" "bstart b' = bstart b"
  shows "separatedBatches gap (bs @ [b'])"
  unfolding separatedBatches_def
proof (intro allI impI)
  fix j assume j: "Suc j < length (bs @ [b'])"
  then have "Suc j < length (bs @ [b])" by simp
  with assms(1) have "bend ((bs @ [b]) ! j) + gap < bstart ((bs @ [b]) ! Suc j)"
    by (simp add: separatedBatches_def)
  with j assms(2) show "bend ((bs @ [b']) ! j) + gap < bstart ((bs @ [b']) ! Suc j)"
    by (auto simp: nth_append split: if_splits)
qed

text \<open>The loop keeps: every batch is greedy, consecutive batches are separated, and the
  requests of the batches, in order, are the requests taken so far.\<close>

lemma exactLoop_invariant:
  assumes "\<forall>b \<in> set (acc @ openBatch cur). greedyBatch gap b"
    and "separatedBatches gap (acc @ openBatch cur)"
    and "cur = None \<longrightarrow> acc = []"
  shows "(\<forall>b \<in> set (snd (exactLoop gap reqs cur acc) @ openBatch (fst (exactLoop gap reqs cur acc))). greedyBatch gap b)
       \<and> separatedBatches gap (snd (exactLoop gap reqs cur acc) @ openBatch (fst (exactLoop gap reqs cur acc)))
       \<and> concat (map requests (snd (exactLoop gap reqs cur acc) @ openBatch (fst (exactLoop gap reqs cur acc))))
           = concat (map requests (acc @ openBatch cur)) @ reqs"
  using assms
proof (induction gap reqs cur acc rule: exactLoop.induct)
  case (1 gap currentBatch batches)
  then show ?case by simp
next
  case (2 gap req rest batches)
  then have e: "batches = []" by simp
  have g: "\<forall>b \<in> set (batches @ openBatch (Some (exactBatch req))). greedyBatch gap b"
    using greedy_new by (auto simp: openBatch_def e)
  have s: "separatedBatches gap (batches @ openBatch (Some (exactBatch req)))"
    by (simp add: e openBatch_def separatedBatches_def)
  from "2.IH" [OF g s] show ?case by (simp add: openBatch_def exactBatch_def e)
next
  case (3 gap req rest cur batches)
  from "3.prems" have gc: "greedyBatch gap cur" and gb: "\<forall>b \<in> set batches. greedyBatch gap b"
    and sep: "separatedBatches gap (batches @ [cur])"
    by (auto simp: openBatch_def)
  show ?case
  proof (cases "roffset req \<le> bend cur + gap")
    case True
    let ?cur' = "cur\<lparr>bend := max (bend cur) (roffset req + rlength req), requests := requests cur @ [req]\<rparr>"
    have g: "\<forall>b \<in> set (batches @ openBatch (Some ?cur')). greedyBatch gap b"
      using gb greedy_join [OF gc True] by (auto simp: openBatch_def)
    have s: "separatedBatches gap (batches @ openBatch (Some ?cur'))"
      using separated_last_update [OF sep, of ?cur'] by (simp add: openBatch_def)
    from "3.IH"(1) [OF True g s] True show ?thesis by (simp add: openBatch_def)
  next
    case False
    have g: "\<forall>b \<in> set ((batches @ [cur]) @ openBatch (Some (exactBatch req))). greedyBatch gap b"
      using gb gc greedy_new by (auto simp: openBatch_def)
    have "bend cur + gap < bstart (exactBatch req)" using False by (simp add: exactBatch_def)
    from separated_snoc [OF sep this]
    have s: "separatedBatches gap ((batches @ [cur]) @ openBatch (Some (exactBatch req)))"
      by (simp add: openBatch_def)
    from "3.IH"(2) [OF False g s] False show ?thesis by (simp add: openBatch_def exactBatch_def)
  qed
qed

lemma exactBatches_greedy:
  "(\<forall>b \<in> set (exactBatches gap reqs). greedyBatch gap b)
   \<and> separatedBatches gap (exactBatches gap reqs)
   \<and> concat (map requests (exactBatches gap reqs)) = reqs"
  using exactLoop_invariant [of "[]" None gap reqs]
  by (simp add: exactBatches_openBatch openBatch_def separatedBatches_def)

lemma exactLoop_lower:
  assumes "sorted (map roffset reqs)"
    and "\<forall>b \<in> set (acc @ openBatch cur). \<forall>r \<in> set (requests b). bstart b \<le> roffset r"
    and "\<forall>b \<in> set (openBatch cur). \<forall>r \<in> set reqs. bstart b \<le> roffset r"
  shows "\<forall>b \<in> set (snd (exactLoop gap reqs cur acc) @ openBatch (fst (exactLoop gap reqs cur acc))).
           \<forall>r \<in> set (requests b). bstart b \<le> roffset r"
  using assms
proof (induction gap reqs cur acc rule: exactLoop.induct)
  case (1 gap currentBatch batches)
  then show ?case by simp
next
  case (2 gap req rest batches)
  have a: "sorted (map roffset rest)" using "2.prems"(1) by simp
  have b: "\<forall>b \<in> set (batches @ openBatch (Some (exactBatch req))). \<forall>r \<in> set (requests b). bstart b \<le> roffset r"
    using "2.prems"(2) by (auto simp: openBatch_def exactBatch_def)
  have c: "\<forall>b \<in> set (openBatch (Some (exactBatch req))). \<forall>r \<in> set rest. bstart b \<le> roffset r"
    using "2.prems"(1) by (auto simp: openBatch_def exactBatch_def)
  from "2.IH" [OF a b c] show ?case by simp
next
  case (3 gap req rest cur batches)
  have a: "sorted (map roffset rest)" using "3.prems"(1) by simp
  show ?case
  proof (cases "roffset req \<le> bend cur + gap")
    case True
    let ?cur' = "cur\<lparr>bend := max (bend cur) (roffset req + rlength req), requests := requests cur @ [req]\<rparr>"
    have b: "\<forall>b \<in> set (batches @ openBatch (Some ?cur')). \<forall>r \<in> set (requests b). bstart b \<le> roffset r"
      using "3.prems"(2,3) by (auto simp: openBatch_def)
    have c: "\<forall>b \<in> set (openBatch (Some ?cur')). \<forall>r \<in> set rest. bstart b \<le> roffset r"
      using "3.prems"(3) by (auto simp: openBatch_def)
    from "3.IH"(1) [OF True a b c] True show ?thesis by simp
  next
    case False
    have b: "\<forall>b \<in> set ((batches @ [cur]) @ openBatch (Some (exactBatch req))). \<forall>r \<in> set (requests b). bstart b \<le> roffset r"
      using "3.prems"(2) by (auto simp: openBatch_def exactBatch_def)
    have c: "\<forall>b \<in> set (openBatch (Some (exactBatch req))). \<forall>r \<in> set rest. bstart b \<le> roffset r"
      using "3.prems"(1) by (auto simp: openBatch_def exactBatch_def)
    from "3.IH"(2) [OF False a b c] False show ?thesis by simp
  qed
qed

lemma exactBatches_lower:
  assumes "sorted (map roffset reqs)" "b \<in> set (exactBatches gap reqs)" "r \<in> set (requests b)"
  shows "bstart b \<le> roffset r"
  using exactLoop_lower [of reqs "[]" None gap] assms
  by (simp add: exactBatches_openBatch openBatch_def)

lemma greedy_upper:
  assumes "greedyBatch gap b" "r \<in> set (requests b)"
  shows "roffset r + rlength r \<le> bend b"
proof -
  from assms(1) have "bend b = Max (requestEnd ` set (requests b))" by (simp add: greedyBatch_def)
  moreover have "requestEnd r \<le> Max (requestEnd ` set (requests b))"
    using assms(2) by (intro Max_ge) auto
  ultimately show ?thesis by (simp add: requestEnd_def)
qed

lemma jsSlice_nonneg:
  "0 \<le> s \<Longrightarrow> 0 \<le> e \<Longrightarrow> jsSlice xs s e = take (min (nat e) (length xs) - min (nat s) (length xs)) (drop (min (nat s) (length xs)) xs)"
  by (simp add: jsSlice_def relIndex_def)

lemma slice_arith:
  fixes S P N E len :: nat
  assumes "S \<le> P" "P + N \<le> E"
  defines "M \<equiv> min E len - min S len"
  defines "A \<equiv> min (P - S) M"
  defines "B \<equiv> min (P - S + N) M"
  shows "min (M - A) (B - A) = min (len - min P len) (min (P + N) len - min P len)
       \<and> (i < B - A \<longrightarrow> P + i < len \<and> min S len = S \<and> min P len = P \<and> A = P - S \<and> A + i < M
           \<and> i < min (P + N) len - min P len)"
proof -
  consider "len \<le> S" | "S < len" "len \<le> P" | "P < len" "len \<le> P + N" | "P + N < len" "len \<le> E" | "E < len"
    by linarith
  then show ?thesis
  proof cases
    case 1
    with assms(1,2) have "M = 0" "A = 0" "B = 0" "min (P + N) len = len" "min P len = len"
      by (simp_all add: M_def A_def B_def)
    then show ?thesis by simp
  next
    case 2
    with assms(1,2) have "M = len - S" "min (P + N) len = len" "min P len = len"
      by (simp_all add: M_def)
    moreover from this 2 assms(1,2) have "A = len - S" "B = len - S" by (simp_all add: A_def B_def)
    ultimately show ?thesis by simp
  next
    case 3
    with assms(1,2) have m: "M = len - S" "min (P + N) len = len" "min P len = P" "min S len = S"
      by (simp_all add: M_def)
    moreover from this 3 assms(1,2) have "A = P - S" "B = len - S" by (simp_all add: A_def B_def)
    ultimately show ?thesis using 3 assms(1,2) by auto
  next
    case 4
    with assms(1,2) have m: "M = len - S" "min (P + N) len = P + N" "min P len = P" "min S len = S"
      by (simp_all add: M_def)
    moreover from this 4 assms(1,2) have "A = P - S" "B = P - S + N" by (simp_all add: A_def B_def)
    ultimately show ?thesis using 4 assms(1,2) by auto
  next
    case 5
    with assms(1,2) have m: "M = E - S" "min (P + N) len = P + N" "min P len = P" "min S len = S"
      by (simp_all add: M_def)
    moreover from this 5 assms(1,2) have "A = P - S" "B = P - S + N" by (simp_all add: A_def B_def)
    ultimately show ?thesis using 5 assms(1,2) by auto
  qed
qed


lemma jsSlice_within:
  assumes "0 \<le> s" "s \<le> pos" "0 \<le> n" "pos + n \<le> e"
  shows "jsSlice (jsSlice xs s e) (pos - s) (pos - s + n) = jsSlice xs pos (pos + n)"
proof -
  define S where "S = nat s"
  define E where "E = nat e"
  define P where "P = nat pos"
  define N where "N = nat n"
  define len where "len = length xs"
  define M where "M = min E len - min S len"
  define A where "A = min (P - S) M"
  define B where "B = min (P - S + N) M"
  define ys where "ys = take M (drop (min S len) xs)"
  have sE: "S \<le> P" "P + N \<le> E" using assms by (auto simp: S_def E_def P_def N_def)
  note ar = slice_arith [OF sE, of len, folded M_def, folded A_def B_def]
  have c1: "nat (pos - s) = P - S" "nat (pos - s + n) = P - S + N" "nat (pos + n) = P + N"
    using assms by (auto simp: S_def P_def N_def nat_diff_distrib nat_add_distrib)
  have e0: "0 \<le> e" "0 \<le> pos" "0 \<le> pos - s" "0 \<le> pos - s + n" "0 \<le> pos + n" using assms by auto
  have ly: "length ys = M" by (simp add: ys_def M_def len_def)
  have inner: "jsSlice xs s e = ys"
    using assms(1) e0(1) by (simp add: jsSlice_nonneg ys_def M_def S_def E_def len_def)
  have lhs: "jsSlice ys (pos - s) (pos - s + n) = take (B - A) (drop A ys)"
    using e0 by (simp add: jsSlice_nonneg c1 ly A_def B_def)
  have rhs: "jsSlice xs pos (pos + n) = take (min (P + N) len - min P len) (drop (min P len) xs)"
    using e0 by (simp add: jsSlice_nonneg c1 P_def [symmetric] len_def [symmetric])
  have "take (B - A) (drop A ys) = take (min (P + N) len - min P len) (drop (min P len) xs)"
  proof (rule nth_equalityI)
    show "length (take (B - A) (drop A ys)) = length (take (min (P + N) len - min P len) (drop (min P len) xs))"
      by (simp only: length_take length_drop ly len_def [symmetric]) (rule ar [THEN conjunct1])
  next
    fix i
    assume "i < length (take (B - A) (drop A ys))"
    then have i: "i < B - A" by simp
    from ar [THEN conjunct2, THEN mp, OF i] have b: "P + i < len" and m: "min S len = S" "min P len = P" "A = P - S"
      and AM: "A + i < M" and i2: "i < min (P + N) len - min P len" by blast+
    have "take (B - A) (drop A ys) ! i = ys ! (A + i)"
      using i AM by (simp add: ly)
    also have "\<dots> = drop (min S len) xs ! (A + i)"
      unfolding ys_def using AM by simp
    also have "\<dots> = xs ! (S + (A + i))"
      using b sE by (simp add: m len_def [symmetric])
    also have "S + (A + i) = P + i" using sE by (simp add: m)
    also have "xs ! (P + i) = take (min (P + N) len - min P len) (drop (min P len) xs) ! i"
      using i2 b by (simp add: m(2) len_def [symmetric])
    finally show "take (B - A) (drop A ys) ! i
        = take (min (P + N) len - min P len) (drop (min P len) xs) ! i" .
  qed
  then show ?thesis by (simp only: inner lhs rhs)
qed

lemma processBatches_ok:
  "\<forall>b \<in> set bs. \<not> unreadable file (bstart b) (bend b) \<Longrightarrow>
     processBatches dci doi file bs indexes seen =
       (seen @ map batchRange bs, Inr (foldl (decodeBatch dci doi file) indexes bs))"
proof (induction bs arbitrary: indexes seen)
  case Nil
  then show ?case by (simp add: returnIO_def)
next
  case (Cons b bs)
  then show ?case
    by (simp add: bind_read decodeBatch_def batchRange_def)
qed

lemma processBatches_fail:
  "\<forall>b' \<in> set pre. \<not> unreadable file (bstart b') (bend b') \<Longrightarrow> unreadable file (bstart b) (bend b) \<Longrightarrow>
     processBatches dci doi file (pre @ b # post) indexes seen =
       (seen @ map batchRange (pre @ [b]), Inl (ReadFailed (bstart b) (bend b)))"
proof (induction pre arbitrary: indexes seen)
  case Nil
  then show ?case by (simp add: bind_read batchRange_def)
next
  case (Cons a pre)
  then show ?case
    by (simp add: bind_read batchRange_def)
qed

lemma nearestNumber_exact: "\<bar>v\<bar> \<le> 2 ^ 53 \<Longrightarrow> nearestNumber v = v"
  by (simp add: nearestNumber_def)

lemma numAdd_exact: "0 \<le> a + b \<Longrightarrow> a + b \<le> 2 ^ 53 \<Longrightarrow> numAdd a b = a + b"
  unfolding numAdd_def by (rule nearestNumber_exact) simp

lemma numSub_exact: "0 \<le> a - b \<Longrightarrow> a - b \<le> 2 ^ 53 \<Longrightarrow> numSub a b = a - b"
  unfolding numSub_def by (rule nearestNumber_exact) simp

text \<open>On byte ranges the loop of the code is the merge with exact integers.\<close>

lemma newBatch_exact:
  assumes "0 \<le> gap" "byteRange gap req"
  shows "newBatch req = exactBatch req"
    and "0 \<le> bend (exactBatch req)" and "bend (exactBatch req) + gap \<le> 2 ^ 53"
proof -
  from assms have a: "0 \<le> roffset req + rlength req" and b: "roffset req + rlength req \<le> 2 ^ 53"
    and c: "roffset req + rlength req + gap \<le> 2 ^ 53"
    by (simp_all add: byteRange_def)
  from a b show "newBatch req = exactBatch req"
    by (simp add: newBatch_def exactBatch_def numAdd_exact)
  from a c show "0 \<le> bend (exactBatch req)" and "bend (exactBatch req) + gap \<le> 2 ^ 53"
    by (simp_all add: exactBatch_def)
qed

lemma batchLoop_exact:
  assumes "0 \<le> gap" and "\<forall>r \<in> set reqs. byteRange gap r"
    and "\<forall>c. cur = Some c \<longrightarrow> 0 \<le> bend c \<and> bend c + gap \<le> 2 ^ 53"
  shows "batchLoop gap reqs cur acc = exactLoop gap reqs cur acc"
  using assms
proof (induction gap reqs cur acc rule: batchLoop.induct)
  case (1 gap currentBatch batches)
  show ?case by simp
next
  case (2 gap req rest batches)
  from "2.prems" have r: "byteRange gap req" and rest: "\<forall>r \<in> set rest. byteRange gap r" by simp_all
  note nb = newBatch_exact [OF "2.prems"(1) r]
  have "\<forall>c. Some (newBatch req) = Some c \<longrightarrow> 0 \<le> bend c \<and> bend c + gap \<le> 2 ^ 53"
    using nb by simp
  from "2.IH" [OF "2.prems"(1) rest this] show ?case by (simp add: nb(1))
next
  case (3 gap req rest cur batches)
  from "3.prems" have r: "byteRange gap req" and rest: "\<forall>r \<in> set rest. byteRange gap r"
    and c0: "0 \<le> bend cur" and c1: "bend cur + gap \<le> 2 ^ 53" by simp_all
  note nb = newBatch_exact [OF "3.prems"(1) r]
  from r "3.prems"(1) have e0: "0 \<le> roffset req + rlength req"
    and e1: "roffset req + rlength req \<le> 2 ^ 53"
    and e2: "roffset req + rlength req + gap \<le> 2 ^ 53"
    by (simp_all add: byteRange_def)
  have g: "numAdd (bend cur) gap = bend cur + gap"
    using c0 c1 "3.prems"(1) by (intro numAdd_exact) simp_all
  have e: "numAdd (roffset req) (rlength req) = roffset req + rlength req"
    using e0 e1 by (rule numAdd_exact)
  show ?case
  proof (cases "roffset req \<le> numAdd (bend cur) gap")
    case True
    let ?cur' = "cur\<lparr>bend := max (bend cur) (numAdd (roffset req) (rlength req)),
                     requests := requests cur @ [req]\<rparr>"
    have "\<forall>c. Some ?cur' = Some c \<longrightarrow> 0 \<le> bend c \<and> bend c + gap \<le> 2 ^ 53"
      using c0 c1 e2 by (auto simp: e max_def)
    from "3.IH"(1) [OF True "3.prems"(1) rest this] True show ?thesis
      by (simp add: g e)
  next
    case False
    have "\<forall>c. Some (newBatch req) = Some c \<longrightarrow> 0 \<le> bend c \<and> bend c + gap \<le> 2 ^ 53"
      using nb by simp
    from "3.IH"(2) [OF False "3.prems"(1) rest this] False show ?thesis
      by (simp add: g nb(1))
  qed
qed

lemma makeBatches_exact:
  assumes "0 \<le> gap" and "\<forall>r \<in> set reqs. byteRange gap r"
  shows "makeBatches gap reqs = exactBatches gap reqs"
  using batchLoop_exact [OF assms, of None "[]"] by (simp add: makeBatches_def exactBatches_def)

text \<open>
  The bytes that a request takes from the bytes of its batch are the bytes of the file at
  \<open>[offset, offset + length)\<close>, hence the decoding of the code is the direct one.
\<close>

lemma request_slice:
  assumes "0 \<le> bstart b" "bstart b \<le> roffset r" "0 \<le> rlength r"
    and "roffset r + rlength r \<le> bend b" "roffset r + rlength r \<le> 2 ^ 53"
  shows "jsSlice (jsSlice bytes (bstart b) (bend b)) (numSub (roffset r) (bstart b))
           (numAdd (numSub (roffset r) (bstart b)) (rlength r))
         = jsSlice bytes (roffset r) (roffset r + rlength r)"
proof -
  have a: "numSub (roffset r) (bstart b) = roffset r - bstart b"
    using assms by (intro numSub_exact) simp_all
  have b: "numAdd (roffset r - bstart b) (rlength r) = roffset r - bstart b + rlength r"
    using assms by (intro numAdd_exact) simp_all
  show ?thesis
    unfolding a b using jsSlice_within [OF assms(1) assms(2) assms(3) assms(4)] .
qed

lemma applyRequest_direct:
  assumes "0 \<le> bstart b" "bstart b \<le> roffset r" "0 \<le> rlength r"
    and "roffset r + rlength r \<le> bend b" "roffset r + rlength r \<le> 2 ^ 53"
  shows "applyRequest dci doi b (jsSlice bytes (bstart b) (bend b)) indexes r
         = directRequest dci doi bytes indexes r"
  unfolding applyRequest_def directRequest_def Let_def request_slice [OF assms] ..

lemma foldl_direct:
  assumes "\<forall>r \<in> set rs. 0 \<le> bstart b \<and> bstart b \<le> roffset r \<and> 0 \<le> rlength r
             \<and> roffset r + rlength r \<le> bend b \<and> roffset r + rlength r \<le> 2 ^ 53"
  shows "foldl (applyRequest dci doi b (jsSlice bytes (bstart b) (bend b))) indexes rs
         = foldl (directRequest dci doi bytes) indexes rs"
  using assms
proof (induction rs arbitrary: indexes)
  case Nil
  show ?case by simp
next
  case (Cons r rs)
  from Cons.prems have "applyRequest dci doi b (jsSlice bytes (bstart b) (bend b)) indexes r
         = directRequest dci doi bytes indexes r"
    by (intro applyRequest_direct) simp_all
  with Cons show ?case by simp
qed

lemma decodeBatches_direct:
  assumes "\<forall>b \<in> set bs. \<forall>r \<in> set (requests b). 0 \<le> bstart b \<and> bstart b \<le> roffset r \<and> 0 \<le> rlength r
             \<and> roffset r + rlength r \<le> bend b \<and> roffset r + rlength r \<le> 2 ^ 53"
  shows "foldl (decodeBatch dci doi file) indexes bs
         = foldl (directRequest dci doi (contents file)) indexes (concat (map requests bs))"
  using assms
proof (induction bs arbitrary: indexes)
  case Nil
  show ?case by simp
next
  case (Cons b bs)
  from Cons.prems have "decodeBatch dci doi file indexes b
      = foldl (directRequest dci doi (contents file)) indexes (requests b)"
    unfolding decodeBatch_def by (intro foldl_direct) simp
  with Cons show ?case by simp
qed

text \<open>The batches of byte ranges sorted by offset: what holds of each request in its batch.\<close>

lemma batches_of_byte_ranges:
  assumes gap: "0 \<le> gap" and ranges: "\<forall>r \<in> set reqs. byteRange gap r"
    and srt: "sorted (map roffset reqs)"
  shows "makeBatches gap reqs = exactBatches gap reqs"
    and "\<forall>b \<in> set (makeBatches gap reqs). \<forall>r \<in> set (requests b).
           0 \<le> bstart b \<and> bstart b \<le> roffset r \<and> 0 \<le> rlength r
           \<and> roffset r + rlength r \<le> bend b \<and> roffset r + rlength r \<le> 2 ^ 53"
proof -
  show eq: "makeBatches gap reqs = exactBatches gap reqs"
    using makeBatches_exact [OF gap ranges] .
  note g = exactBatches_greedy [of gap reqs]
  show "\<forall>b \<in> set (makeBatches gap reqs). \<forall>r \<in> set (requests b).
           0 \<le> bstart b \<and> bstart b \<le> roffset r \<and> 0 \<le> rlength r
           \<and> roffset r + rlength r \<le> bend b \<and> roffset r + rlength r \<le> 2 ^ 53"
    unfolding eq
  proof (intro ballI)
    fix b r
    assume b: "b \<in> set (exactBatches gap reqs)" and r: "r \<in> set (requests b)"
    from g b have gb: "greedyBatch gap b" by blast
    then have "hd (requests b) \<in> set (requests b)" by (simp add: greedyBatch_def)
    with b have "hd (requests b) \<in> set (concat (map requests (exactBatches gap reqs)))" by auto
    then have "hd (requests b) \<in> set reqs" using g by simp
    then have "0 \<le> roffset (hd (requests b))" using ranges by (simp add: byteRange_def)
    then have st: "0 \<le> bstart b" using gb by (simp add: greedyBatch_def)
    from b r have "r \<in> set (concat (map requests (exactBatches gap reqs)))" by auto
    then have "r \<in> set reqs" using g by simp
    then have br: "byteRange gap r" using ranges by simp
    then have rn: "0 \<le> rlength r" by (simp add: byteRange_def)
    from br gap have top: "roffset r + rlength r \<le> 2 ^ 53" by (simp add: byteRange_def)
    have lo: "bstart b \<le> roffset r" using exactBatches_lower [OF srt b r] .
    have hi: "roffset r + rlength r \<le> bend b" using greedy_upper [OF gb r] .
    from st lo rn hi top
    show "0 \<le> bstart b \<and> bstart b \<le> roffset r \<and> 0 \<le> rlength r
           \<and> roffset r + rlength r \<le> bend b \<and> roffset r + rlength r \<le> 2 ^ 53"
      by simp
  qed
qed

lemma streaming_direct:
  assumes ranges: "\<forall>r \<in> set (readRequests md). byteRange MAX_GAP r"
    and readable: "\<forall>b \<in> set (makeBatches MAX_GAP (sort_key roffset (readRequests md))).
          \<not> unreadable file (bstart b) (bend b)"
  shows "parsePageIndexesStreaming dci doi file md seen =
          (seen @ map batchRange (makeBatches MAX_GAP (sort_key roffset (readRequests md))),
           Inr (foldl (directRequest dci doi (contents file)) (initIndexes md)
                  (sort_key roffset (readRequests md))))"
proof -
  define reqs where "reqs = sort_key roffset (readRequests md)"
  have gap: "0 \<le> MAX_GAP" by (simp add: MAX_GAP_def)
  have r: "\<forall>r \<in> set reqs. byteRange MAX_GAP r" using ranges by (simp add: reqs_def)
  have srt: "sorted (map roffset reqs)" by (simp add: reqs_def)
  note b = batches_of_byte_ranges [OF gap r srt]
  have c: "concat (map requests (makeBatches MAX_GAP reqs)) = reqs"
    unfolding b(1) using exactBatches_greedy [of MAX_GAP reqs] by simp
  have "parsePageIndexesStreaming dci doi file md seen =
          (seen @ map batchRange (makeBatches MAX_GAP reqs),
           Inr (foldl (decodeBatch dci doi file) (initIndexes md) (makeBatches MAX_GAP reqs)))"
    using readable by (simp add: parsePageIndexesStreaming_def processBatches_ok reqs_def)
  also have "foldl (decodeBatch dci doi file) (initIndexes md) (makeBatches MAX_GAP reqs)
      = foldl (directRequest dci doi (contents file)) (initIndexes md) reqs"
    using decodeBatches_direct [OF b(2), of dci doi "file" "initIndexes md"] by (simp only: c)
  finally show ?thesis unfolding reqs_def .
qed

text \<open>Sums of small Numbers are exact; \<open>2^53 + 1\<close> is a tie and rounds to the even \<open>2^53\<close>.\<close>

lemma numAdd_small: "\<bar>a + b\<bar> \<le> 2 ^ 53 \<Longrightarrow> numAdd a b = a + b"
  by (simp add: numAdd_def nearestNumber_def)

lemma numSub_small: "\<bar>a - b\<bar> \<le> 2 ^ 53 \<Longrightarrow> numSub a b = a - b"
  by (simp add: numSub_def nearestNumber_def)

lemma bitlen_54: "bitlen 9007199254740993 = 54"
proof -
  have "bitlen 9007199254740993 \<le> 54" by (subst bitlen_le_iff_power) simp
  moreover have "\<not> bitlen 9007199254740993 \<le> 53" by (subst bitlen_le_iff_power) simp
  ultimately show ?thesis by simp
qed

lemma tie_to_even: "numAdd 9007199254740991 2 = 9007199254740992"
  by (simp add: numAdd_def nearestNumber_def roundMagnitude_def bitlen_54)

text \<open>
  Claim C2, for byte ranges. The requests are sorted by offset, stably. When the offsets
  and lengths are not negative and every end plus the gap is at most \<open>2^53\<close>, the batches
  made of the sorted requests hold them all, in order; each batch is greedy and
  consecutive batches are separated: a request joined the running batch exactly when its
  offset was at most the batch's end plus the gap, and the end of a batch is the largest
  end of its requests. The bytes that a request takes from the bytes of its batch are the
  bytes of the file at \<open>[offset, offset + length)\<close>, and what the code decodes and stores
  for the request is what is decoded from these. \<open>parsePageIndexesStreaming\<close> batches with
  the gap \<open>MAX_GAP\<close> of 64 KiB and, when no read fails, issues exactly one read per batch,
  of \<open>[start, end)\<close>, in order, and returns the indexes decoded for the sorted requests from
  the bytes of the file at their ranges. The requests (100,50), (200,50), (10000,50) make
  the two batches [100,250) and [10000,10050) with gap 1000, and the single batch
  [100,10050) with the gap of the code.
\<close>

theorem coalesced_reads:
  "(0 \<le> gap \<and> (\<forall>r \<in> set reqs. byteRange gap r) \<longrightarrow>
     (let sorted_reqs = sort_key roffset reqs;
          batches = makeBatches gap sorted_reqs
      in sorted (map roffset sorted_reqs)
       \<and> (\<forall>k. filter (\<lambda>r. roffset r = k) sorted_reqs = filter (\<lambda>r. roffset r = k) reqs)
       \<and> concat (map requests batches) = sorted_reqs
       \<and> (\<forall>b \<in> set batches. greedyBatch gap b)
       \<and> separatedBatches gap batches
       \<and> (\<forall>b \<in> set batches. \<forall>r \<in> set (requests b). \<forall>bytes :: byte list.
             jsSlice (jsSlice bytes (bstart b) (bend b)) (numSub (roffset r) (bstart b))
                     (numAdd (numSub (roffset r) (bstart b)) (rlength r))
               = jsSlice bytes (roffset r) (roffset r + rlength r)
             \<and> (\<forall>indexes. applyRequest dci doi b (jsSlice bytes (bstart b) (bend b)) indexes r
                   = directRequest dci doi bytes indexes r))))
   \<and> ((\<forall>r \<in> set (readRequests md). byteRange MAX_GAP r)
       \<and> (\<forall>b \<in> set (makeBatches MAX_GAP (sort_key roffset (readRequests md))).
            \<not> unreadable file (bstart b) (bend b)) \<longrightarrow>
        parsePageIndexesStreaming dci doi file md seen =
          (seen @ map batchRange (makeBatches MAX_GAP (sort_key roffset (readRequests md))),
           Inr (foldl (directRequest dci doi (contents file)) (initIndexes md)
                  (sort_key roffset (readRequests md)))))
   \<and> MAX_GAP = 65536
   \<and> map batchRange
        (makeBatches 1000
          (sort_key roffset
            [\<lparr>rgIdx = 0, colIdx = 0, rtype = columnIndexType, roffset = 100, rlength = 50\<rparr>,
             \<lparr>rgIdx = 0, colIdx = 0, rtype = offsetIndexType, roffset = 200, rlength = 50\<rparr>,
             \<lparr>rgIdx = 0, colIdx = 1, rtype = columnIndexType, roffset = 10000, rlength = 50\<rparr>]))
       = [(100, 250), (10000, 10050)]
   \<and> map batchRange
        (makeBatches MAX_GAP
          (sort_key roffset
            [\<lparr>rgIdx = 0, colIdx = 0, rtype = columnIndexType, roffset = 100, rlength = 50\<rparr>,
             \<lparr>rgIdx = 0, colIdx = 0, rtype = offsetIndexType, roffset = 200, rlength = 50\<rparr>,
             \<lparr>rgIdx = 0, colIdx = 1, rtype = columnIndexType, roffset = 10000, rlength = 50\<rparr>]))
       = [(100, 10050)]"
proof -
  have general: "let sorted_reqs = sort_key roffset reqs;
          batches = makeBatches gap sorted_reqs
      in sorted (map roffset sorted_reqs)
       \<and> (\<forall>k. filter (\<lambda>r. roffset r = k) sorted_reqs = filter (\<lambda>r. roffset r = k) reqs)
       \<and> concat (map requests batches) = sorted_reqs
       \<and> (\<forall>b \<in> set batches. greedyBatch gap b)
       \<and> separatedBatches gap batches
       \<and> (\<forall>b \<in> set batches. \<forall>r \<in> set (requests b). \<forall>bytes :: byte list.
             jsSlice (jsSlice bytes (bstart b) (bend b)) (numSub (roffset r) (bstart b))
                     (numAdd (numSub (roffset r) (bstart b)) (rlength r))
               = jsSlice bytes (roffset r) (roffset r + rlength r)
             \<and> (\<forall>indexes. applyRequest dci doi b (jsSlice bytes (bstart b) (bend b)) indexes r
                   = directRequest dci doi bytes indexes r))"
    if h: "0 \<le> gap \<and> (\<forall>r \<in> set reqs. byteRange gap r)"
  proof -
    define sorted_reqs where "sorted_reqs = sort_key roffset reqs"
    define batches where "batches = makeBatches gap sorted_reqs"
    from h have gap: "0 \<le> gap" and ranges: "\<forall>r \<in> set sorted_reqs. byteRange gap r"
      by (simp_all add: sorted_reqs_def)
    have s1: "sorted (map roffset sorted_reqs)" by (simp add: sorted_reqs_def)
    have s2: "\<forall>k. filter (\<lambda>r. roffset r = k) sorted_reqs = filter (\<lambda>r. roffset r = k) reqs"
      by (simp add: sorted_reqs_def sort_key_stable)
    note b = batches_of_byte_ranges [OF gap ranges s1, folded batches_def]
    note g = exactBatches_greedy [of gap sorted_reqs, folded b(1)]
    from g have g1: "\<forall>b \<in> set batches. greedyBatch gap b"
      and g2: "separatedBatches gap batches"
      and g3: "concat (map requests batches) = sorted_reqs" by simp_all
    have sl: "\<forall>b \<in> set batches. \<forall>r \<in> set (requests b). \<forall>bytes :: byte list.
             jsSlice (jsSlice bytes (bstart b) (bend b)) (numSub (roffset r) (bstart b))
                     (numAdd (numSub (roffset r) (bstart b)) (rlength r))
               = jsSlice bytes (roffset r) (roffset r + rlength r)
             \<and> (\<forall>indexes. applyRequest dci doi b (jsSlice bytes (bstart b) (bend b)) indexes r
                   = directRequest dci doi bytes indexes r)"
    proof (intro ballI allI conjI)
      fix b' r and bytes :: "byte list" and indexes :: "('a, 'b) colIndex list list"
      assume "b' \<in> set batches" "r \<in> set (requests b')"
      with b(2) have c: "0 \<le> bstart b'" "bstart b' \<le> roffset r" "0 \<le> rlength r"
        "roffset r + rlength r \<le> bend b'" "roffset r + rlength r \<le> 2 ^ 53"
        by blast+
      show "jsSlice (jsSlice bytes (bstart b') (bend b')) (numSub (roffset r) (bstart b'))
                     (numAdd (numSub (roffset r) (bstart b')) (rlength r))
               = jsSlice bytes (roffset r) (roffset r + rlength r)"
        using request_slice [OF c] .
      show "applyRequest dci doi b' (jsSlice bytes (bstart b') (bend b')) indexes r
                   = directRequest dci doi bytes indexes r"
        using applyRequest_direct [OF c] .
    qed
    show ?thesis
      unfolding Let_def sorted_reqs_def [symmetric] batches_def [symmetric]
      by (intro conjI) (fact s1 s2 g1 g2 g3 sl)+
  qed
  have rd: "(\<forall>r \<in> set (readRequests md). byteRange MAX_GAP r)
       \<and> (\<forall>b \<in> set (makeBatches MAX_GAP (sort_key roffset (readRequests md))).
            \<not> unreadable file (bstart b) (bend b)) \<longrightarrow>
        parsePageIndexesStreaming dci doi file md seen =
          (seen @ map batchRange (makeBatches MAX_GAP (sort_key roffset (readRequests md))),
           Inr (foldl (directRequest dci doi (contents file)) (initIndexes md)
                  (sort_key roffset (readRequests md))))"
    using streaming_direct [of md "file" dci doi seen] by blast
  have mg: "MAX_GAP = 65536" by (simp add: MAX_GAP_def)
  have ex: "map batchRange
        (makeBatches 1000
          (sort_key roffset
            [\<lparr>rgIdx = 0, colIdx = 0, rtype = columnIndexType, roffset = 100, rlength = 50\<rparr>,
             \<lparr>rgIdx = 0, colIdx = 0, rtype = offsetIndexType, roffset = 200, rlength = 50\<rparr>,
             \<lparr>rgIdx = 0, colIdx = 1, rtype = columnIndexType, roffset = 10000, rlength = 50\<rparr>]))
       = [(100, 250), (10000, 10050)]"
    by (simp add: makeBatches_def newBatch_def batchRange_def numAdd_exact)
  have ex2: "map batchRange
        (makeBatches MAX_GAP
          (sort_key roffset
            [\<lparr>rgIdx = 0, colIdx = 0, rtype = columnIndexType, roffset = 100, rlength = 50\<rparr>,
             \<lparr>rgIdx = 0, colIdx = 0, rtype = offsetIndexType, roffset = 200, rlength = 50\<rparr>,
             \<lparr>rgIdx = 0, colIdx = 1, rtype = columnIndexType, roffset = 10000, rlength = 50\<rparr>]))
       = [(100, 10050)]"
    by (simp add: makeBatches_def newBatch_def batchRange_def numAdd_exact MAX_GAP_def)
  from general rd mg ex ex2 show ?thesis by blast
qed

theorem coalesced_reads_witness:
  "map batchRange
        (makeBatches 1
          (sort_key roffset
            [\<lparr>rgIdx = 0, colIdx = 0, rtype = columnIndexType, roffset = 4, rlength = 2\<rparr>,
             \<lparr>rgIdx = 0, colIdx = 0, rtype = offsetIndexType, roffset = 1, rlength = 2\<rparr>]))
       = [(1, 6)]
   \<and> jsSlice (jsSlice [10, 11, 12, 13, 14, 15, 16 :: byte] 1 6) (numSub 4 1) (numAdd (numSub 4 1) 2)
       = jsSlice [10, 11, 12, 13, 14, 15, 16 :: byte] 4 (4 + 2)
   \<and> jsSlice [10, 11, 12, 13, 14, 15, 16 :: byte] 4 (4 + 2) = [14, 15]
   \<and> parsePageIndexesStreaming (\<lambda>bs. (bs, None)) (\<lambda>bs. (bs, None))
        \<lparr>contents = [10, 11, 12, 13, 14, 15, 16, 17, 18, 19, 20, 21, 22, 23, 24, 25],
         unreadable = (\<lambda>s e. False)\<rparr>
        \<lparr>row_groups = [\<lparr>columns = [\<lparr>column_index_offset = Some 4, column_index_length = Some 2,
            offset_index_offset = Some 1, offset_index_length = Some 2\<rparr>]\<rparr>]\<rparr> []
     = ([(1, 6)], Inr [[\<lparr>columnIndex = Some [14, 15], offsetIndex = Some [11, 12]\<rparr>]])"
proof -
  let ?r1 = "\<lparr>rgIdx = 0, colIdx = 0, rtype = columnIndexType, roffset = 4, rlength = 2\<rparr>"
  let ?r2 = "\<lparr>rgIdx = 0, colIdx = 0, rtype = offsetIndexType, roffset = 1, rlength = 2\<rparr>"
  let ?b = "\<lparr>bstart = 1, bend = 6, requests = [?r2, ?r1]\<rparr>"
  let ?md = "\<lparr>row_groups = [\<lparr>columns = [\<lparr>column_index_offset = Some 4, column_index_length = Some 2,
            offset_index_offset = Some 1, offset_index_length = Some 2\<rparr>]\<rparr>]\<rparr>"
  let ?dec = "\<lambda>bs :: byte list. (bs, None :: error option)"
  let ?file = "\<lparr>contents = [10, 11, 12, 13, 14, 15, 16, 17, 18, 19, 20, 21, 22, 23, 24, 25 :: byte],
         unreadable = (\<lambda>s e. False)\<rparr>"
  have bs: "makeBatches 1 (sort_key roffset [?r1, ?r2]) = [?b]"
    by (simp add: makeBatches_def newBatch_def numAdd_exact)
  have rq: "readRequests ?md = [?r1, ?r2]"
    by (simp add: readRequests_def columnRequests_def indexRange_def enumerate_eq_zip)
  have bs': "makeBatches MAX_GAP (sort_key roffset [?r1, ?r2]) = [?b]"
    by (simp add: makeBatches_def newBatch_def numAdd_exact MAX_GAP_def)
  have h1: "0 \<le> (1::int) \<and> (\<forall>r \<in> set [?r1, ?r2]. byteRange 1 r)"
    by (simp add: byteRange_def)
  have h2: "(\<forall>r \<in> set (readRequests ?md). byteRange MAX_GAP r)
       \<and> (\<forall>b \<in> set (makeBatches MAX_GAP (sort_key roffset (readRequests ?md))).
            \<not> unreadable ?file (bstart b) (bend b))"
    unfolding rq by (simp add: byteRange_def MAX_GAP_def)
  note t = coalesced_reads [of 1 "[?r1, ?r2]" ?dec ?dec ?md ?file "[]"]
  note t1 = t [THEN conjunct1, rule_format, OF h1, unfolded Let_def bs]
  note c6 = t1 [THEN conjunct2, THEN conjunct2, THEN conjunct2, THEN conjunct2, THEN conjunct2]
  note t2 = t [THEN conjunct2, THEN conjunct1, rule_format, OF h2, unfolded rq bs']
  have sl: "jsSlice (jsSlice [10, 11, 12, 13, 14, 15, 16 :: byte] 1 6) (numSub 4 1) (numAdd (numSub 4 1) 2)
       = jsSlice [10, 11, 12, 13, 14, 15, 16 :: byte] 4 (4 + 2)"
    using c6 by simp
  have ev: "jsSlice [10, 11, 12, 13, 14, 15, 16 :: byte] 4 (4 + 2) = [14, 15]"
    by (simp add: jsSlice_def relIndex_def)
  have st: "parsePageIndexesStreaming ?dec ?dec ?file ?md []
     = ([(1, 6)], Inr [[\<lparr>columnIndex = Some [14, 15], offsetIndex = Some [11, 12]\<rparr>]])"
    using t2 by (simp add: batchRange_def directRequest_def updateSlot_def initIndexes_def
        jsSlice_def relIndex_def)
  from bs sl ev st show ?thesis by (simp add: batchRange_def)
qed

text \<open>
  Outside the byte ranges the claim fails. A chunk with a negative column index offset
  and a valid offset index range: the batch is read from the end of the file, and the
  offset index is decoded from no byte at all, not from the four bytes of the file at
  \<open>[3, 7)\<close>. A request of two bytes at offset \<open>2^53 - 1\<close>: the end of its batch is the Number
  \<open>2^53\<close>, not \<open>offset + length\<close>.
\<close>

theorem coalesced_reads_counterexample:
  "parsePageIndexesStreaming (\<lambda>bs. (bs, None)) (\<lambda>bs. (bs, None))
        \<lparr>contents = [0, 1, 2, 3, 4, 5, 6, 7, 8, 9, 10, 11, 12, 13, 14, 15],
         unreadable = (\<lambda>s e. False)\<rparr>
        \<lparr>row_groups = [\<lparr>columns = [\<lparr>column_index_offset = Some (- 10), column_index_length = Some 5,
            offset_index_offset = Some 3, offset_index_length = Some 4\<rparr>]\<rparr>]\<rparr> []
     = ([(- 10, 7)], Inr [[\<lparr>columnIndex = Some [6], offsetIndex = Some []\<rparr>]])
   \<and> jsSlice [0, 1, 2, 3, 4, 5, 6, 7, 8, 9, 10, 11, 12, 13, 14, 15 :: byte] 3 (3 + 4) = [3, 4, 5, 6]
   \<and> map batchRange
        (makeBatches MAX_GAP
          [\<lparr>rgIdx = 0, colIdx = 0, rtype = columnIndexType, roffset = 9007199254740991, rlength = 2\<rparr>])
       = [(9007199254740991, 9007199254740992)]
   \<and> (9007199254740991 :: int) + 2 = 9007199254740993"
proof -
  let ?r1 = "\<lparr>rgIdx = 0, colIdx = 0, rtype = columnIndexType, roffset = - 10, rlength = 5\<rparr>"
  let ?r2 = "\<lparr>rgIdx = 0, colIdx = 0, rtype = offsetIndexType, roffset = 3, rlength = 4\<rparr>"
  let ?b = "\<lparr>bstart = - 10, bend = 7, requests = [?r1, ?r2]\<rparr>"
  let ?md = "\<lparr>row_groups = [\<lparr>columns = [\<lparr>column_index_offset = Some (- 10), column_index_length = Some 5,
            offset_index_offset = Some 3, offset_index_length = Some 4\<rparr>]\<rparr>]\<rparr>"
  have rq: "readRequests ?md = [?r1, ?r2]"
    by (simp add: readRequests_def columnRequests_def indexRange_def enumerate_eq_zip)
  have bs: "makeBatches MAX_GAP (sort_key roffset [?r1, ?r2]) = [?b]"
    by (simp add: makeBatches_def newBatch_def numAdd_small MAX_GAP_def)
  have a: "parsePageIndexesStreaming (\<lambda>bs. (bs, None)) (\<lambda>bs. (bs, None))
        \<lparr>contents = [0, 1, 2, 3, 4, 5, 6, 7, 8, 9, 10, 11, 12, 13, 14, 15],
         unreadable = (\<lambda>s e. False)\<rparr> ?md []
     = ([(- 10, 7)], Inr [[\<lparr>columnIndex = Some [6], offsetIndex = Some []\<rparr>]])"
    unfolding parsePageIndexesStreaming_def rq bs
    by (simp add: bind_read returnIO_def applyRequest_def numSub_small numAdd_small updateSlot_def
        initIndexes_def jsSlice_def relIndex_def)
  have b: "jsSlice [0, 1, 2, 3, 4, 5, 6, 7, 8, 9, 10, 11, 12, 13, 14, 15 :: byte] 3 (3 + 4) = [3, 4, 5, 6]"
    by (simp add: jsSlice_def relIndex_def)
  have c: "map batchRange
        (makeBatches MAX_GAP
          [\<lparr>rgIdx = 0, colIdx = 0, rtype = columnIndexType, roffset = 9007199254740991, rlength = 2\<rparr>])
       = [(9007199254740991, 9007199254740992)]"
    by (simp add: makeBatches_def newBatch_def batchRange_def tie_to_even)
  from a b c show ?thesis by simp
qed


lemma bind_fail: "m seen = (seen', Inl e) \<Longrightarrow> bindIO m k seen = (seen', Inl e)"
  by (simp add: bindIO_def)

text \<open>
  Claim C4, as the code has it. The read of a batch is outside every \<open>try\<close>: when the read
  of a batch fails, \<open>parsePageIndexesStreaming\<close> fails with the error of that read, after
  reading the batches before it and without reading the ones after it, and the failure
  passes through whatever follows it in the entry point. When no read fails the result
  is the indexes decoded batch by batch.
\<close>

theorem index_read_failure_is_fatal:
  "(\<forall>pre b post.
      makeBatches MAX_GAP (sort_key roffset (readRequests md)) = pre @ b # post
      \<and> (\<forall>b' \<in> set pre. \<not> unreadable file (bstart b') (bend b'))
      \<and> unreadable file (bstart b) (bend b) \<longrightarrow>
        parsePageIndexesStreaming dci doi file md seen =
          (seen @ map batchRange (pre @ [b]), Inl (ReadFailed (bstart b) (bend b)))
        \<and> bindIO (parsePageIndexesStreaming dci doi file md) k seen =
          (seen @ map batchRange (pre @ [b]), Inl (ReadFailed (bstart b) (bend b))))
   \<and> ((\<forall>b \<in> set (makeBatches MAX_GAP (sort_key roffset (readRequests md))).
          \<not> unreadable file (bstart b) (bend b)) \<longrightarrow>
        parsePageIndexesStreaming dci doi file md seen =
          (seen @ map batchRange (makeBatches MAX_GAP (sort_key roffset (readRequests md))),
           Inr (foldl (decodeBatch dci doi file) (initIndexes md)
                  (makeBatches MAX_GAP (sort_key roffset (readRequests md))))))"
proof -
  have a: "\<forall>pre b post.
      makeBatches MAX_GAP (sort_key roffset (readRequests md)) = pre @ b # post
      \<and> (\<forall>b' \<in> set pre. \<not> unreadable file (bstart b') (bend b'))
      \<and> unreadable file (bstart b) (bend b) \<longrightarrow>
        parsePageIndexesStreaming dci doi file md seen =
          (seen @ map batchRange (pre @ [b]), Inl (ReadFailed (bstart b) (bend b)))
        \<and> bindIO (parsePageIndexesStreaming dci doi file md) k seen =
          (seen @ map batchRange (pre @ [b]), Inl (ReadFailed (bstart b) (bend b)))"
  proof (intro allI impI)
    fix pre b post
    assume h: "makeBatches MAX_GAP (sort_key roffset (readRequests md)) = pre @ b # post
      \<and> (\<forall>b' \<in> set pre. \<not> unreadable file (bstart b') (bend b'))
      \<and> unreadable file (bstart b) (bend b)"
    then have p: "parsePageIndexesStreaming dci doi file md seen =
          (seen @ map batchRange (pre @ [b]), Inl (ReadFailed (bstart b) (bend b)))"
      unfolding parsePageIndexesStreaming_def using processBatches_fail [of pre "file" b dci doi post]
      by simp
    from p bind_fail [of "parsePageIndexesStreaming dci doi file md" seen _ _ k, OF p] show "parsePageIndexesStreaming dci doi file md seen =
          (seen @ map batchRange (pre @ [b]), Inl (ReadFailed (bstart b) (bend b)))
        \<and> bindIO (parsePageIndexesStreaming dci doi file md) k seen =
          (seen @ map batchRange (pre @ [b]), Inl (ReadFailed (bstart b) (bend b)))" by simp
  qed
  have b: "(\<forall>b \<in> set (makeBatches MAX_GAP (sort_key roffset (readRequests md))).
          \<not> unreadable file (bstart b) (bend b)) \<longrightarrow>
        parsePageIndexesStreaming dci doi file md seen =
          (seen @ map batchRange (makeBatches MAX_GAP (sort_key roffset (readRequests md))),
           Inr (foldl (decodeBatch dci doi file) (initIndexes md)
                  (makeBatches MAX_GAP (sort_key roffset (readRequests md)))))"
    by (simp add: parsePageIndexesStreaming_def processBatches_ok)
  from a b show ?thesis by (rule conjI)
qed

text \<open>A file of sixteen bytes whose metadata names two index ranges far apart.\<close>

lemma two_batches:
  "map batchRange (makeBatches MAX_GAP (sort_key roffset (readRequests
      \<lparr>row_groups = [\<lparr>columns = [\<lparr>column_index_offset = Some 4, column_index_length = Some 2,
          offset_index_offset = Some 100000, offset_index_length = Some 2\<rparr>]\<rparr>]\<rparr>)))
    = [(4, 6), (100000, 100002)]"
  by (simp add: readRequests_def columnRequests_def indexRange_def enumerate_eq_zip
      makeBatches_def newBatch_def numAdd_exact MAX_GAP_def batchRange_def)

theorem index_read_failure_counterexample:
  "parsePageIndexesStreaming (\<lambda>bs. (bs, None)) (\<lambda>bs. (bs, None))
      \<lparr>contents = [0x50, 0x41, 0x52, 0x31, 1, 2, 3, 4, 4, 0, 0, 0, 0x50, 0x41, 0x52, 0x31],
       unreadable = (\<lambda>s e. s = 4 \<and> e = 6)\<rparr>
      \<lparr>row_groups = [\<lparr>columns = [\<lparr>column_index_offset = Some 4, column_index_length = Some 2,
          offset_index_offset = Some 100000, offset_index_length = Some 2\<rparr>]\<rparr>]\<rparr> []
     = ([(4, 6)], Inl (ReadFailed 4 6))
   \<and> map batchRange (makeBatches MAX_GAP (sort_key roffset (readRequests
        \<lparr>row_groups = [\<lparr>columns = [\<lparr>column_index_offset = Some 4, column_index_length = Some 2,
            offset_index_offset = Some 100000, offset_index_length = Some 2\<rparr>]\<rparr>]\<rparr>)))
     = [(4, 6), (100000, 100002)]
   \<and> parseParquetFileStreaming
        (\<lambda>bs. (\<lparr>row_groups = [\<lparr>columns = [\<lparr>column_index_offset = Some 4, column_index_length = Some 2,
            offset_index_offset = Some 100000, offset_index_length = Some 2\<rparr>]\<rparr>]\<rparr>, None))
        (\<lambda>bs. (bs, None)) (\<lambda>bs. (bs, None))
        \<lparr>contents = [0x50, 0x41, 0x52, 0x31, 1, 2, 3, 4, 4, 0, 0, 0, 0x50, 0x41, 0x52, 0x31],
         unreadable = (\<lambda>s e. s = 4 \<and> e = 6)\<rparr> []
     = ([(0, 4), (8, 16), (4, 8), (4, 6)], Inl (ReadFailed 4 6))"
proof -
  let ?md = "\<lparr>row_groups = [\<lparr>columns = [\<lparr>column_index_offset = Some 4, column_index_length = Some 2,
          offset_index_offset = Some 100000, offset_index_length = Some 2\<rparr>]\<rparr>]\<rparr>"
  let ?bytes = "[0x50, 0x41, 0x52, 0x31, 1, 2, 3, 4, 4, 0, 0, 0, 0x50, 0x41, 0x52, 0x31] :: byte list"
  let ?file = "\<lparr>contents = ?bytes, unreadable = (\<lambda>s e. s = 4 \<and> e = 6)\<rparr>"
  have bs: "makeBatches MAX_GAP (sort_key roffset (readRequests ?md)) =
      [\<lparr>bstart = 4, bend = 6, requests = [\<lparr>rgIdx = 0, colIdx = 0, rtype = columnIndexType, roffset = 4, rlength = 2\<rparr>]\<rparr>,
       \<lparr>bstart = 100000, bend = 100002, requests = [\<lparr>rgIdx = 0, colIdx = 0, rtype = offsetIndexType, roffset = 100000, rlength = 2\<rparr>]\<rparr>]"
    by (simp add: readRequests_def columnRequests_def indexRange_def enumerate_eq_zip
      makeBatches_def newBatch_def numAdd_exact MAX_GAP_def)
  have p: "\<And>seen. parsePageIndexesStreaming (\<lambda>bs. (bs, None)) (\<lambda>bs. (bs, None)) ?file ?md seen
      = (seen @ [(4, 6)], Inl (ReadFailed 4 6))"
    unfolding parsePageIndexesStreaming_def bs by (simp add: bind_read)
  have len: "12 \<le> length ?bytes" by simp
  have q: "parseParquetFileStreaming (\<lambda>bs. (?md, None)) (\<lambda>bs. (bs, None)) (\<lambda>bs. (bs, None)) ?file []
     = ([(0, 4), (8, 16), (4, 8), (4, 6)], Inl (ReadFailed 4 6))"
    by (subst parseParquetFileStreaming_checks [OF len]) (simp_all add: PARQUET_MAGIC_def p)
  from p [of "[]"] two_batches q show ?thesis by simp
qed

theorem index_read_failure_is_fatal_witness:
  "parsePageIndexesStreaming (\<lambda>bs. (bs, None)) (\<lambda>bs. (bs, None))
      \<lparr>contents = [0x50, 0x41, 0x52, 0x31, 1, 2, 3, 4, 4, 0, 0, 0, 0x50, 0x41, 0x52, 0x31],
       unreadable = (\<lambda>s e. s = 100000)\<rparr>
      \<lparr>row_groups = [\<lparr>columns = [\<lparr>column_index_offset = Some 4, column_index_length = Some 2,
          offset_index_offset = Some 100000, offset_index_length = Some 2\<rparr>]\<rparr>]\<rparr> []
     = ([(4, 6), (100000, 100002)], Inl (ReadFailed 100000 100002))
   \<and> parsePageIndexesStreaming (\<lambda>bs. (bs, None)) (\<lambda>bs. (bs, None))
      \<lparr>contents = [0x50, 0x41, 0x52, 0x31, 1, 2, 3, 4, 4, 0, 0, 0, 0x50, 0x41, 0x52, 0x31],
       unreadable = (\<lambda>s e. False)\<rparr>
      \<lparr>row_groups = [\<lparr>columns = [\<lparr>column_index_offset = Some 4, column_index_length = Some 2,
          offset_index_offset = Some 100000, offset_index_length = Some 2\<rparr>]\<rparr>]\<rparr> []
     = ([(4, 6), (100000, 100002)], Inr [[\<lparr>columnIndex = Some [1, 2], offsetIndex = Some []\<rparr>]])"
proof -
  let ?md = "\<lparr>row_groups = [\<lparr>columns = [\<lparr>column_index_offset = Some 4, column_index_length = Some 2,
          offset_index_offset = Some 100000, offset_index_length = Some 2\<rparr>]\<rparr>]\<rparr>"
  let ?bytes = "[0x50, 0x41, 0x52, 0x31, 1, 2, 3, 4, 4, 0, 0, 0, 0x50, 0x41, 0x52, 0x31] :: byte list"
  let ?b1 = "\<lparr>bstart = 4, bend = 6, requests = [\<lparr>rgIdx = 0, colIdx = 0, rtype = columnIndexType, roffset = 4, rlength = 2\<rparr>]\<rparr>"
  let ?b2 = "\<lparr>bstart = 100000, bend = 100002, requests = [\<lparr>rgIdx = 0, colIdx = 0, rtype = offsetIndexType, roffset = 100000, rlength = 2\<rparr>]\<rparr>"
  let ?dec = "\<lambda>bs :: byte list. (bs, None :: error option)"
  have bs: "makeBatches MAX_GAP (sort_key roffset (readRequests ?md)) = [?b1, ?b2]"
    by (simp add: readRequests_def columnRequests_def indexRange_def enumerate_eq_zip
      makeBatches_def newBatch_def numAdd_exact MAX_GAP_def)
  note t1 = index_read_failure_is_fatal [of ?md "\<lparr>contents = ?bytes, unreadable = (\<lambda>s e. s = 100000)\<rparr>"
      ?dec ?dec "[]", unfolded bs, THEN conjunct1, rule_format, of "[?b1]" ?b2 "[]", THEN conjunct1]
  note t2 = index_read_failure_is_fatal [of ?md "\<lparr>contents = ?bytes, unreadable = (\<lambda>s e. False)\<rparr>"
      ?dec ?dec "[]", unfolded bs, THEN conjunct2]
  have r1: "parsePageIndexesStreaming ?dec ?dec \<lparr>contents = ?bytes, unreadable = (\<lambda>s e. s = 100000)\<rparr> ?md []
     = ([(4, 6), (100000, 100002)], Inl (ReadFailed 100000 100002))"
    using t1 by (simp add: batchRange_def)
  have r2: "parsePageIndexesStreaming ?dec ?dec \<lparr>contents = ?bytes, unreadable = (\<lambda>s e. False)\<rparr> ?md []
     = ([(4, 6), (100000, 100002)], Inr [[\<lparr>columnIndex = Some [1, 2], offsetIndex = Some []\<rparr>]])"
    using t2 by (simp add: batchRange_def decodeBatch_def applyRequest_def numSub_exact numAdd_exact updateSlot_def initIndexes_def
        jsSlice_def relIndex_def)
  from r1 r2 show ?thesis by (rule conjI)
qed

text \<open>
  Claim C3, on the legacy path. \<open>parsePageIndexes\<close> assigns the new index object to its slot
  before \<open>read\<close> runs: a slot whose range is present always holds an object, also when
  \<open>read\<close> threw. On a chunk whose two index bytes are too short for the decoder, the slot
  holds the half-read object, where \<open>parsePageIndexesStreaming\<close> leaves it null.
\<close>

theorem legacy_slot_after_failed_read:
  "columnIndex (parseColumnChunk dci doi bytes cc) =
     (case indexRange (column_index_offset cc) (column_index_length cc) of
        None \<Rightarrow> None
      | Some (pos, n) \<Rightarrow> Some (fst (dci (jsSlice bytes pos (pos + n)))))
   \<and> offsetIndex (parseColumnChunk dci doi bytes cc) =
     (case indexRange (offset_index_offset cc) (offset_index_length cc) of
        None \<Rightarrow> None
      | Some (pos, n) \<Rightarrow> Some (fst (doi (jsSlice bytes pos (pos + n)))))
   \<and> parsePageIndexes
        (\<lambda>bs. (length bs, if length bs < 4 then Some BufferUnderflow else None))
        (\<lambda>bs. (length bs, if length bs < 4 then Some BufferUnderflow else None))
        [0x50, 0x41, 0x52, 0x31, 1, 2, 3, 4, 4, 0, 0, 0, 0x50, 0x41, 0x52, 0x31]
        \<lparr>row_groups = [\<lparr>columns = [\<lparr>column_index_offset = Some 4, column_index_length = Some 2,
            offset_index_offset = None, offset_index_length = None\<rparr>]\<rparr>]\<rparr>
     = [[\<lparr>columnIndex = Some 2, offsetIndex = None\<rparr>]]
   \<and> parsePageIndexesStreaming
        (\<lambda>bs. (length bs, if length bs < 4 then Some BufferUnderflow else None))
        (\<lambda>bs. (length bs, if length bs < 4 then Some BufferUnderflow else None))
        \<lparr>contents = [0x50, 0x41, 0x52, 0x31, 1, 2, 3, 4, 4, 0, 0, 0, 0x50, 0x41, 0x52, 0x31],
         unreadable = (\<lambda>s e. False)\<rparr>
        \<lparr>row_groups = [\<lparr>columns = [\<lparr>column_index_offset = Some 4, column_index_length = Some 2,
            offset_index_offset = None, offset_index_length = None\<rparr>]\<rparr>]\<rparr> []
     = ([(4, 6)], Inr [[\<lparr>columnIndex = None, offsetIndex = None\<rparr>]])"
proof -
  let ?md = "\<lparr>row_groups = [\<lparr>columns = [\<lparr>column_index_offset = Some 4, column_index_length = Some 2,
            offset_index_offset = None, offset_index_length = None\<rparr>]\<rparr>]\<rparr>"
  have a: "columnIndex (parseColumnChunk dci doi bytes cc) =
     (case indexRange (column_index_offset cc) (column_index_length cc) of
        None \<Rightarrow> None
      | Some (pos, n) \<Rightarrow> Some (fst (dci (jsSlice bytes pos (pos + n)))))"
    by (simp add: parseColumnChunk_def Let_def split: option.splits prod.splits)
  have b: "offsetIndex (parseColumnChunk dci doi bytes cc) =
     (case indexRange (offset_index_offset cc) (offset_index_length cc) of
        None \<Rightarrow> None
      | Some (pos, n) \<Rightarrow> Some (fst (doi (jsSlice bytes pos (pos + n)))))"
    by (simp add: parseColumnChunk_def Let_def split: option.splits prod.splits)
  have c: "parsePageIndexes
        (\<lambda>bs. (length bs, if length bs < 4 then Some BufferUnderflow else None))
        (\<lambda>bs. (length bs, if length bs < 4 then Some BufferUnderflow else None))
        [0x50, 0x41, 0x52, 0x31, 1, 2, 3, 4, 4, 0, 0, 0, 0x50, 0x41, 0x52, 0x31]
        ?md
     = [[\<lparr>columnIndex = Some 2, offsetIndex = None\<rparr>]]"
    by (simp add: parsePageIndexes_def parseColumnChunk_def indexRange_def jsSlice_def relIndex_def)
  have bs: "makeBatches MAX_GAP (sort_key roffset (readRequests ?md)) =
      [\<lparr>bstart = 4, bend = 6, requests = [\<lparr>rgIdx = 0, colIdx = 0, rtype = columnIndexType, roffset = 4, rlength = 2\<rparr>]\<rparr>]"
    by (simp add: readRequests_def columnRequests_def indexRange_def enumerate_eq_zip
      makeBatches_def newBatch_def numAdd_exact MAX_GAP_def)
  have d: "parsePageIndexesStreaming
        (\<lambda>bs. (length bs, if length bs < 4 then Some BufferUnderflow else None))
        (\<lambda>bs. (length bs, if length bs < 4 then Some BufferUnderflow else None))
        \<lparr>contents = [0x50, 0x41, 0x52, 0x31, 1, 2, 3, 4, 4, 0, 0, 0, 0x50, 0x41, 0x52, 0x31],
         unreadable = (\<lambda>s e. False)\<rparr>
        ?md []
     = ([(4, 6)], Inr [[\<lparr>columnIndex = None, offsetIndex = None\<rparr>]])"
    unfolding parsePageIndexesStreaming_def bs
    by (simp add: bind_read returnIO_def applyRequest_def numSub_exact numAdd_exact initIndexes_def jsSlice_def relIndex_def)
  from a b c d show ?thesis by (intro conjI)
qed

section \<open>Properties of the statistics formatter\<close>

lemma below_ten: "d < 10 \<Longrightarrow> d \<in> {0, 1, 2, 3, 4, 5, 6, 7, 8, 9::nat}"
  by auto

lemma digitChar_range:
  assumes "d < 10"
  shows "digitChar d \<in> set ''0123456789''"
  using below_ten [OF assms] unfolding digitChar_def by (elim insertE emptyE) simp_all

lemma digitValue_digitChar:
  assumes "d < 10"
  shows "digitValue (digitChar d) = d"
  using below_ten [OF assms] unfolding digitChar_def digitValue_def by (elim insertE emptyE) simp_all

lemma digits_nonempty: "digits n \<noteq> []"
  by (subst digits.simps) simp

lemma digits_are_digits: "set (digits n) \<subseteq> set ''0123456789''"
proof (induction n rule: digits.induct)
  case (1 n)
  show ?case
  proof (cases "n < 10")
    case True
    then show ?thesis using digitChar_range [of n] by (subst digits.simps) simp
  next
    case False
    have "n mod 10 < 10" by simp
    from digitChar_range [OF this] 1 [OF False] False show ?thesis
      by (subst digits.simps) simp
  qed
qed

lemma decimalValue_append: "decimalValue (s @ [c]) = 10 * decimalValue s + digitValue c"
  by (simp add: decimalValue_def)

lemma decimalValue_digits: "decimalValue (digits n) = n"
proof (induction n rule: digits.induct)
  case (1 n)
  show ?case
  proof (cases "n < 10")
    case True
    then show ?thesis
      by (subst digits.simps) (simp add: decimalValue_def digitValue_digitChar)
  next
    case False
    have "decimalValue (digits n) = 10 * decimalValue (digits (n div 10)) + digitValue (digitChar (n mod 10))"
      using False by (subst digits.simps) (simp add: decimalValue_append)
    also have "\<dots> = 10 * (n div 10) + n mod 10"
      using 1 [OF False] by (simp add: digitValue_digitChar)
    finally show ?thesis by simp
  qed
qed

lemma decimalValue_zeros: "decimalValue (replicate k CHR ''0'' @ s) = decimalValue s"
  by (induction k) (simp_all add: decimalValue_def digitValue_def)

lemma minus_not_digit: "hd (digits n) \<noteq> CHR ''-''"
proof -
  have "hd (digits n) \<in> set (digits n)" using digits_nonempty by simp
  with digits_are_digits [of n] show ?thesis by auto
qed

lemma toString_sign: "startsWith (toString v) ''-'' \<longleftrightarrow> v < 0"
  using minus_not_digit [of "nat v"] digits_nonempty [of "nat v"]
  by (cases "digits (nat v)") (auto simp: toString_def startsWith_def)

lemma toString_abs: "(if v < 0 then jsSliceFrom (toString v) 1 else toString v) = digits (nat \<bar>v\<bar>)"
  by (simp add: toString_def jsSliceFrom_def relIndex_def)


lemma slice_to_end_minus:
  assumes "0 < s" "s < int (length p)"
  shows "jsSlice p 0 (- s) = take (length p - nat s) p"
    and "jsSliceFrom p (- s) = drop (length p - nat s) p"
proof -
  from assms have "relIndex (length p) (- s) = length p - nat s"
    by (simp add: relIndex_def nat_diff_distrib')
  then show "jsSlice p 0 (- s) = take (length p - nat s) p"
    and "jsSliceFrom p (- s) = drop (length p - nat s) p"
    by (simp_all add: jsSlice_def jsSliceFrom_def relIndex_def)
qed

lemma strAppend_within: "length a + length b \<le> maxLen \<Longrightarrow> strAppend maxLen a b = Inr (a @ b)"
  by (simp add: strAppend_def)

lemma strAppend_over: "maxLen < length a + length b \<Longrightarrow> strAppend maxLen a b = Inl RangeError"
  by (simp add: strAppend_def)

text \<open>
  The body of \<open>formatDecimal\<close> with a scale above 0: the rendering when it is within the
  limit of the engine, and a RangeError otherwise.
\<close>

lemma formatDecimal_body_eq:
  fixes v s :: int
  assumes s: "0 < s"
  defines "d \<equiv> digits (nat \<bar>v\<bar>)"
  defines "padded \<equiv> replicate (nat (s + 1) - length d) CHR ''0'' @ d"
  defines "k \<equiv> length padded - nat s"
  defines "rendering \<equiv> (if v < 0 then ''-'' else []) @ take k padded @ ''.'' @ drop k padded"
  shows "formatDecimal_body maxLen v s =
           (if length rendering \<le> maxLen then Inr rendering else Inl RangeError)"
    and "nat s < length padded"
proof -
  from s show len: "nat s < length padded" by (auto simp: padded_def)
  with s have lt: "s < int (length padded)" by simp
  have nonempty: "take k padded \<noteq> []" using len by (auto simp: k_def)
  have abs: "(if startsWith (toString v) ''-'' then jsSliceFrom (toString v) 1 else toString v) = d"
    using toString_abs [of v] by (simp add: toString_sign d_def)
  have ip: "orElse (jsSlice padded 0 (- s)) ''0'' = take k padded"
    using slice_to_end_minus(1) [OF s lt] nonempty by (simp add: k_def orElse_def)
  have dp: "jsSliceFrom padded (- s) = drop k padded"
    using slice_to_end_minus(2) [OF s lt] by (simp add: k_def)
  have total: "length rendering = (if v < 0 then 1 else 0) + length padded + 1"
    by (simp add: rendering_def)
  show "formatDecimal_body maxLen v s =
           (if length rendering \<le> maxLen then Inr rendering else Inl RangeError)"
  proof (cases "int (length d) < s + 1 \<and> int maxLen < s + 1")
    case True
    then have "padStart maxLen d (s + 1) CHR ''0'' = Inl RangeError"
      by (simp add: padStart_def)
    moreover have "nat (s + 1) \<le> length padded" using s by (simp add: padded_def)
    then have "maxLen < length rendering" using True s unfolding total by (auto split: if_splits)
    ultimately show ?thesis
      using s unfolding formatDecimal_body_def Let_def abs by simp
  next
    case False
    then have pad: "padStart maxLen d (s + 1) CHR ''0'' = Inr padded"
      by (auto simp: padStart_def padded_def)
    define sign where "sign = (if v < 0 then ''-'' else [])"
    define intPart where "intPart = take k padded"
    define decPart where "decPart = drop k padded"
    have sg: "(if startsWith (toString v) ''-'' then ''-'' else []) = sign"
      by (simp add: toString_sign sign_def)
    have r: "rendering = sign @ intPart @ ''.'' @ decPart"
      by (simp add: rendering_def sign_def intPart_def decPart_def)
    have "formatDecimal_body maxLen v s =
        (case strAppend maxLen sign intPart of
           Inl e \<Rightarrow> Inl e
         | Inr withSign \<Rightarrow>
             (case strAppend maxLen withSign ''.'' of
                Inl e \<Rightarrow> Inl e
              | Inr withPoint \<Rightarrow> strAppend maxLen withPoint decPart))"
      using s unfolding formatDecimal_body_def Let_def abs pad sum.case ip dp sg intPart_def decPart_def
      by simp
    also have "\<dots> = (if length rendering \<le> maxLen then Inr rendering else Inl RangeError)"
    proof (cases "length rendering \<le> maxLen")
      case True
      have 1: "strAppend maxLen sign intPart = Inr (sign @ intPart)"
        by (rule strAppend_within) (use True in \<open>simp add: r\<close>)
      have 2: "strAppend maxLen (sign @ intPart) ''.'' = Inr ((sign @ intPart) @ ''.'')"
        by (rule strAppend_within) (use True in \<open>simp add: r\<close>)
      have 3: "strAppend maxLen ((sign @ intPart) @ ''.'') decPart = Inr (((sign @ intPart) @ ''.'') @ decPart)"
        by (rule strAppend_within) (use True in \<open>simp add: r\<close>)
      show ?thesis unfolding 1 2 3 sum.case using True by (simp add: r)
    next
      case False
      then have over: "maxLen < length sign + length intPart + 1 + length decPart"
        by (simp add: r)
      show ?thesis
      proof (cases "maxLen < length sign + length intPart")
        case True
        then show ?thesis using False by (simp add: strAppend_def)
      next
        case a: False
        then have 1: "strAppend maxLen sign intPart = Inr (sign @ intPart)"
          by (intro strAppend_within) simp
        show ?thesis
        proof (cases "maxLen < length (sign @ intPart) + length ''.''")
          case True
          then show ?thesis using False unfolding 1 sum.case by (simp add: strAppend_def)
        next
          case b: False
          then have 2: "strAppend maxLen (sign @ intPart) ''.'' = Inr ((sign @ intPart) @ ''.'')"
            by (intro strAppend_within) simp
          have 3: "strAppend maxLen ((sign @ intPart) @ ''.'') decPart = Inl RangeError"
            by (rule strAppend_over) (use over in simp)
          show ?thesis using False unfolding 1 2 3 sum.case by simp
        qed
      qed
    qed
    finally show ?thesis .
  qed
qed

lemma digits_12345: "digits 12345 = ''12345''"
  by (simp add: digits.simps digitChar_def)

lemma digits_5: "digits 5 = ''5''"
  by (simp add: digits.simps digitChar_def)

text \<open>
  Claim C8, with the limit of the engine. With scale 0 the result is the decimal string
  of the integer. With a scale \<open>s > 0\<close>, the digits of the absolute value are padded on the
  left with zeros to at least \<open>s + 1\<close> digits, split at \<open>s\<close> from the end into a non-empty
  integer part and a fractional part of \<open>s\<close> digits, joined by a point, after \<open>-\<close> when the
  integer is negative; the digits written are those of the absolute value. This
  rendering is the result when it is no longer than the maximum string length of the
  engine; when it is longer, \<open>padStart\<close> or a concatenation throws, and the result is the
  decimal string of the integer, unscaled. 12345 with scale 2 is \<open>123.45\<close> and -5 with scale
  2 is \<open>-0.05\<close>.
\<close>

theorem formatDecimal_scaling:
  "formatDecimal maxLen v 0 = toString v \<and>
   toString v = (if v < 0 then ''-'' else []) @ digits (nat \<bar>v\<bar>) \<and>
   decimalValue (digits (nat \<bar>v\<bar>)) = nat \<bar>v\<bar> \<and>
   (0 < s \<longrightarrow>
     (let d = digits (nat \<bar>v\<bar>);
          padded = replicate (nat (s + 1) - length d) CHR ''0'' @ d;
          k = length padded - nat s;
          rendering = (if v < 0 then ''-'' else []) @ take k padded @ ''.'' @ drop k padded
      in (length rendering \<le> maxLen \<longrightarrow> formatDecimal maxLen v s = rendering) \<and>
         (maxLen < length rendering \<longrightarrow> formatDecimal maxLen v s = toString v) \<and>
         length padded = max (nat s + 1) (length d) \<and>
         take k padded \<noteq> [] \<and>
         length (drop k padded) = nat s \<and>
         decimalValue (take k padded @ drop k padded) = nat \<bar>v\<bar>)) \<and>
   (6 \<le> maxLen \<longrightarrow> formatDecimal maxLen 12345 2 = ''123.45'') \<and>
   (5 \<le> maxLen \<longrightarrow> formatDecimal maxLen (- 5) 2 = ''-0.05'')"
proof -
  have zero: "formatDecimal maxLen v 0 = toString v"
    by (simp add: formatDecimal_def formatDecimal_body_def)
  have str: "toString v = (if v < 0 then ''-'' else []) @ digits (nat \<bar>v\<bar>)"
    by (simp add: toString_def)
  have general: "let d = digits (nat \<bar>v\<bar>);
          padded = replicate (nat (s + 1) - length d) CHR ''0'' @ d;
          k = length padded - nat s;
          rendering = (if v < 0 then ''-'' else []) @ take k padded @ ''.'' @ drop k padded
      in (length rendering \<le> maxLen \<longrightarrow> formatDecimal maxLen v s = rendering) \<and>
         (maxLen < length rendering \<longrightarrow> formatDecimal maxLen v s = toString v) \<and>
         length padded = max (nat s + 1) (length d) \<and>
         take k padded \<noteq> [] \<and>
         length (drop k padded) = nat s \<and>
         decimalValue (take k padded @ drop k padded) = nat \<bar>v\<bar>" if s: "0 < s"
  proof -
    define d where "d = digits (nat \<bar>v\<bar>)"
    define padded where "padded = replicate (nat (s + 1) - length d) CHR ''0'' @ d"
    define k where "k = length padded - nat s"
    define rendering where
      "rendering = (if v < 0 then ''-'' else []) @ take k padded @ ''.'' @ drop k padded"
    have len: "nat s < length padded"
      unfolding padded_def d_def by (rule formatDecimal_body_eq(2) [OF s])
    have body: "formatDecimal_body maxLen v s =
           (if length rendering \<le> maxLen then Inr rendering else Inl RangeError)"
      unfolding rendering_def k_def padded_def d_def by (rule formatDecimal_body_eq(1) [OF s])
    have 1: "length rendering \<le> maxLen \<longrightarrow> formatDecimal maxLen v s = rendering"
      by (simp add: formatDecimal_def body)
    have over: "maxLen < length rendering \<longrightarrow> formatDecimal maxLen v s = toString v"
      by (simp add: formatDecimal_def body)
    have 2: "length padded = max (nat s + 1) (length d)"
      using s by (auto simp: padded_def)
    have 3: "take k padded \<noteq> []" using len by (auto simp: k_def)
    have 4: "length (drop k padded) = nat s" using len by (simp add: k_def)
    have "decimalValue padded = nat \<bar>v\<bar>"
      by (simp add: padded_def decimalValue_zeros d_def decimalValue_digits)
    then have 5: "decimalValue (take k padded @ drop k padded) = nat \<bar>v\<bar>"
      by simp
    from 1 over 2 3 4 5 show ?thesis
      unfolding Let_def d_def [symmetric] padded_def [symmetric] k_def [symmetric]
        rendering_def [symmetric] by blast
  qed
  have e1: "6 \<le> maxLen \<longrightarrow> formatDecimal maxLen 12345 2 = ''123.45''"
    using formatDecimal_body_eq(1) [of 2 maxLen 12345]
    by (simp add: digits_12345 formatDecimal_def)
  have e2: "5 \<le> maxLen \<longrightarrow> formatDecimal maxLen (- 5) 2 = ''-0.05''"
    using formatDecimal_body_eq(1) [of 2 maxLen "- 5"]
    by (simp add: digits_5 formatDecimal_def)
  from zero str decimalValue_digits general e1 e2 show ?thesis by blast
qed

theorem formatDecimal_scaling_witness:
  "formatDecimal 100 (- 1234567) 3 = ''-1234.567'' \<and> formatDecimal 100 7 3 = ''0.007'' \<and>
   formatDecimal 6 7 5 = ''7'' \<and> formatDecimal 6 12345 2 = ''123.45'' \<and>
   formatDecimal 5 (- 5) 2 = ''-0.05''"
proof -
  have d1: "digits 1234567 = ''1234567''" by (simp add: digits.simps digitChar_def)
  have d2: "digits 7 = ''7''" by (simp add: digits.simps digitChar_def)
  have r: "replicate 2 CHR ''0'' = ''00''" "replicate 3 CHR ''0'' = ''000''"
    "replicate 5 CHR ''0'' = ''00000''"
    by (simp_all add: eval_nat_numeral)
  have t7: "toString 7 = ''7''" by (simp add: toString_def d2)
  note g = conjunct2 [OF conjunct2 [OF conjunct2]]
  note a = formatDecimal_scaling [of 100 "- 1234567" 3, THEN g, THEN conjunct1]
  note b = formatDecimal_scaling [of 100 7 3, THEN g, THEN conjunct1]
  note c = formatDecimal_scaling [of 6 7 5, THEN g, THEN conjunct1]
  note e = formatDecimal_scaling [of 6 0 1, THEN g, THEN conjunct2, THEN conjunct1]
  note f = formatDecimal_scaling [of 5 0 1, THEN g, THEN conjunct2, THEN conjunct2]
  from a have 1: "formatDecimal 100 (- 1234567) 3 = ''-1234.567''" by (simp add: d1 Let_def)
  from b have 2: "formatDecimal 100 7 3 = ''0.007''" by (simp add: d2 r Let_def)
  from c have 3: "formatDecimal 6 7 5 = ''7''" by (simp add: d2 r t7 Let_def)
  from e have 4: "formatDecimal 6 12345 2 = ''123.45''" by simp
  from f have 5: "formatDecimal 5 (- 5) 2 = ''-0.05''" by simp
  from 1 2 3 4 5 show ?thesis by (intro conjI)
qed

text \<open>
  The largest scale of a file, \<open>2^31 - 1\<close>, asks for a padding to \<open>2^31\<close> characters, above
  the limit of every engine: \<open>padStart\<close> throws and the result is the integer unscaled,
  with no point in it.
\<close>

theorem formatDecimal_scaling_counterexample:
  "formatDecimal 2147483647 5 2147483647 = ''5'' \<and>
   formatDecimal 536870888 5 2147483647 = ''5'' \<and>
   CHR ''.'' \<notin> set (formatDecimal 2147483647 5 2147483647) \<and>
   formatDecimal_body 2147483647 5 2147483647 = Inl RangeError"
proof -
  have t5: "toString 5 = ''5''" by (simp add: toString_def digits_5)
  have a: "formatDecimal_body 2147483647 5 2147483647 = Inl RangeError"
    by (simp add: formatDecimal_body_def t5 startsWith_def padStart_def)
  have b: "formatDecimal_body 536870888 5 2147483647 = Inl RangeError"
    by (simp add: formatDecimal_body_def t5 startsWith_def padStart_def)
  from a b show ?thesis by (simp add: formatDecimal_def t5)
qed

section \<open>Properties of the formatter of statistics\<close>





































end
